theory Spec2Isabelle
  imports Main "HOL-Library.Word"
begin

section \<open>Tasks (class \<open>dsa::task\<close>)\<close>

text \<open>
  A packaged task stores the outcome of its callable in a shared state that the paired
  future reads. The shared states live in a heap, a list of cells indexed by the
  address the future holds: \<open>None\<close> is a state that is not ready yet, \<open>Some o\<close> a ready one.
  A callable either returns a value or raises; \<open>std::packaged_task\<close> stores both in the
  shared state and lets neither escape.
\<close>

datatype 'r outcome = Value 'r | Raised string

datatype error = Logic_Error string | Future_Error

type_synonym 'r heap = "'r outcome option list"

text \<open>\<open>task_model\<close>: the packaged task \<open>_f\<close> (its callable \<open>packaged_f\<close> and the address
  \<open>shared_state\<close> of its shared state) and the stored arguments \<open>_args\<close>.\<close>

record ('a, 'r) task_model =
  packaged_f :: "'a \<Rightarrow> 'r outcome"
  stored_args :: 'a
  shared_state :: nat

text \<open>\<open>task\<close> holds \<open>std::unique_ptr <task_concept> _t\<close>: \<open>None\<close> is the null pointer of a
  default-constructed or moved-from task.\<close>

type_synonym ('a, 'r) task = "('a, 'r) task_model option"

text \<open>\<open>task_model::invoke_\<close> applies the packaged task to the stored arguments. The packaged
  task makes its shared state ready with the callable's outcome; invoked on a state that is
  ready already (or on none) it throws \<open>std::future_error\<close>.\<close>

definition invoke :: "('a, 'r) task_model \<Rightarrow> 'r heap \<Rightarrow> error + 'r heap" where
  "invoke m h =
     (if shared_state m < length h then
        (case h ! shared_state m of
           None \<Rightarrow> Inr (h[shared_state m := Some (packaged_f m (stored_args m))])
         | Some _ \<Rightarrow> Inl Future_Error)
      else Inl Future_Error)"

text \<open>\<open>task::operator()\<close>.\<close>

definition task_call :: "('a, 'r) task \<Rightarrow> 'r heap \<Rightarrow> error + 'r heap" where
  "task_call t h =
     (case t of
        Some m \<Rightarrow> invoke m h
      | None \<Rightarrow> Inl (Logic_Error ''bad task access''))"

text \<open>\<open>std::move\<close> of a task: the value moved out, and what is left in the source.\<close>

definition move_task :: "('a, 'r) task \<Rightarrow> ('a, 'r) task \<times> ('a, 'r) task" where
  "move_task t = (t, None)"

text \<open>\<open>make_task\<close>: a new task with a new shared state, and the future (the address of the
  state).\<close>

definition make_task ::
  "('a \<Rightarrow> 'r outcome) \<Rightarrow> 'a \<Rightarrow> 'r heap \<Rightarrow> (('a, 'r) task \<times> nat) \<times> 'r heap" where
  "make_task f x h = ((Some \<lparr>packaged_f = f, stored_args = x, shared_state = length h\<rparr>, length h), h @ [None])"


section \<open>The queue of one worker (class \<open>task_system::task_queue\<close>)\<close>

text \<open>
  The fields \<open>tasks\<close>, \<open>cv\<close> and \<open>done_flag\<close> are the source's \<open>tasks_\<close>, \<open>cv_\<close> and
  \<open>done_\<close>; \<open>cv\<close> is modelled by the calls made on it,
  oldest first. The mutex is held only inside one operation, so an operation is one atomic
  step; whether \<open>std::try_to_lock\<close> got the mutex is the argument \<open>lock\<close>.
\<close>

datatype cv_call = Notify_One | Notify_All

record ('a, 'r) task_queue =
  tasks :: "('a, 'r) task list"
  cv :: "cv_call list"
  done_flag :: bool

definition new_queue :: "('a, 'r) task_queue" where
  "new_queue = \<lparr>tasks = [], cv = [], done_flag = False\<rparr>"

definition set_done :: "('a, 'r) task_queue \<Rightarrow> ('a, 'r) task_queue" where
  "set_done q = q\<lparr>done_flag := True, cv := cv q @ [Notify_All]\<rparr>"

definition try_pop ::
  "bool \<Rightarrow> ('a, 'r) task_queue \<Rightarrow> (bool \<times> ('a, 'r) task) \<times> ('a, 'r) task_queue" where
  "try_pop lock q =
     (if \<not> lock \<or> tasks q = [] then ((False, None), q)
      else ((True, hd (tasks q)), q\<lparr>tasks := tl (tasks q)\<rparr>))"

text \<open>\<open>try_push\<close> takes the task by reference: the result is the return value, the caller's
  task afterwards, and the queue.\<close>

definition try_push ::
  "bool \<Rightarrow> ('a, 'r) task \<Rightarrow> ('a, 'r) task_queue \<Rightarrow> bool \<times> ('a, 'r) task \<times> ('a, 'r) task_queue" where
  "try_push lock t q =
     (if \<not> lock then (False, t, q)
      else (let (v, t') = move_task t
            in (True, t', q\<lparr>tasks := tasks q @ [v], cv := cv q @ [Notify_One]\<rparr>)))"

text \<open>The blocking \<open>pop\<close> waits on \<open>cv\<close> while the queue is empty and not done. Other threads
  change the queue meanwhile: \<open>obs\<close> lists the queue as found at each wake-up. \<open>pop_wait\<close> is
  the loop, returning the queue with which the loop is left, or \<open>None\<close> when the thread is
  never woken to a queue that lets it leave.\<close>

fun pop_wait :: "('a, 'r) task_queue list \<Rightarrow> ('a, 'r) task_queue \<Rightarrow> ('a, 'r) task_queue option" where
  "pop_wait obs q =
     (if tasks q = [] \<and> \<not> done_flag q then
        (case obs of [] \<Rightarrow> None | q' # obs' \<Rightarrow> pop_wait obs' q')
      else Some q)"

definition pop_take ::
  "('a, 'r) task_queue \<Rightarrow> (bool \<times> ('a, 'r) task) \<times> ('a, 'r) task_queue" where
  "pop_take q =
     (if tasks q = [] then ((False, None), q)
      else ((True, hd (tasks q)), q\<lparr>tasks := tl (tasks q)\<rparr>))"

definition pop ::
  "('a, 'r) task_queue list \<Rightarrow> ('a, 'r) task_queue \<Rightarrow>
   ((bool \<times> ('a, 'r) task) \<times> ('a, 'r) task_queue) option" where
  "pop obs q = map_option pop_take (pop_wait obs q)"

definition push :: "('a, 'r) task \<Rightarrow> ('a, 'r) task_queue \<Rightarrow> ('a, 'r) task_queue" where
  "push t q = q\<lparr>tasks := tasks q @ [t], cv := cv q @ [Notify_One]\<rparr>"

section \<open>The pool (class \<open>task_system\<close>)\<close>

text \<open>
  \<open>std::size_t\<close> is a 64-bit word. The state of a worker thread is the place it has reached
  in \<open>run\<close>, with the task it holds there; \<open>threads\<close> (the source's \<open>threads_\<close>) lists the
  workers by id. The other fields are \<open>queues_\<close>, \<open>exited_\<close>, \<open>nthreads_\<close>, \<open>current_index_\<close>
  and \<open>queued_\<close>; the allocator carries no behaviour and is left out.

  The places of \<open>run\<close>: \<open>Scan k\<close>, at the head of the first \<open>for\<close> loop with its counter at
  \<open>k\<close>; \<open>Scan_Dec t\<close>, after a \<open>try_pop\<close> of that loop gave \<open>t\<close> and before \<open>queued_--\<close>;
  \<open>Own_Pop\<close>, before the blocking \<open>pop\<close> on the worker's own queue; \<open>Own_Dec t\<close>, after that
  \<open>pop\<close> gave \<open>t\<close> and before \<open>queued_--\<close>; \<open>Call t\<close>, at the label \<open>call\<close>; \<open>Finish\<close>, at the
  test of \<open>while (this->queued_)\<close>; \<open>Drain k\<close>, at the head of the \<open>for\<close> loop of a round;
  \<open>Drain_Dec k t\<close> and \<open>Drain_Call k t\<close>, after a \<open>try_pop\<close> of the round gave \<open>t\<close>, before
  \<open>queued_--\<close> and before the call of \<open>t\<close>; \<open>Yield\<close>, before \<open>std::this_thread::yield ()\<close>;
  \<open>Set_Exited\<close>, before \<open>exited_ [id] = true\<close>; \<open>Ended\<close>, past the end of \<open>run\<close>;
  \<open>Terminated e\<close>, left \<open>run\<close> by the exception \<open>e\<close> of a task's call (nothing in \<open>run\<close> catches
  it).
\<close>

datatype ('a, 'r) worker =
    Scan nat
  | Scan_Dec "('a, 'r) task"
  | Own_Pop
  | Own_Dec "('a, 'r) task"
  | Call "('a, 'r) task"
  | Finish
  | Drain nat
  | Drain_Dec nat "('a, 'r) task"
  | Drain_Call nat "('a, 'r) task"
  | Yield
  | Set_Exited
  | Ended
  | Terminated error

record ('a, 'r) task_system =
  queues :: "('a, 'r) task_queue list"
  threads :: "('a, 'r) worker list"
  exited :: "bool list"
  nthreads :: "64 word"
  current_index :: "64 word"
  queued :: "64 word"

text \<open>The constructor: \<open>nthreads\<close> empty queues, the flags false, the threads started.\<close>

definition new_task_system :: "64 word \<Rightarrow> ('a, 'r) task_system" where
  "new_task_system n =
     \<lparr>queues = replicate (unat n) new_queue,
      threads = replicate (unat n) (Scan 0),
      exited = replicate (unat n) False,
      nthreads = n, current_index = 0, queued = 0\<rparr>"

text \<open>The queue \<open>(idx + k) % nthreads_\<close>, in \<open>size_t\<close> arithmetic.\<close>

definition queue_index :: "64 word \<Rightarrow> nat \<Rightarrow> 64 word \<Rightarrow> nat" where
  "queue_index idx k n = unat ((idx + of_nat k) mod n)"

subsection \<open>Submission (\<open>task_system::push\<close>)\<close>

text \<open>What a submission does to the shared counter and the queues, in order.\<close>

datatype push_op = Queued_Inc | Queued_Dec | Try_Push nat bool | Blocking_Push nat

text \<open>The \<open>for\<close> loop of \<open>push\<close> from \<open>k\<close> on; \<open>lk k\<close> tells whether the \<open>k\<close>-th \<open>try_push\<close> gets
  the mutex. The result: whether the loop returned from \<open>push\<close>, the caller's task, the pool
  and the operations performed.\<close>

function push_scan ::
  "(nat \<Rightarrow> bool) \<Rightarrow> 64 word \<Rightarrow> nat \<Rightarrow> ('a, 'r) task \<Rightarrow> ('a, 'r) task_system \<Rightarrow>
   bool \<times> ('a, 'r) task \<times> ('a, 'r) task_system \<times> push_op list" where
  "push_scan lk idx k t s =
     (if k < unat (10 * nthreads s) then
        (let s1 = s\<lparr>queued := queued s + 1\<rparr>;
             i = queue_index idx k (nthreads s1);
             (ok, t', q') = try_push (lk k) t (queues s1 ! i);
             s2 = s1\<lparr>queues := (queues s1)[i := q']\<rparr>
         in if ok then (True, t', s2, [Queued_Inc, Try_Push i True])
            else (let s3 = s2\<lparr>queued := queued s2 - 1\<rparr>;
                      (r, t'', s4, ops) = push_scan lk idx (k + 1) t' s3
                  in (r, t'', s4, [Queued_Inc, Try_Push i False, Queued_Dec] @ ops)))
      else (False, t, s, []))"
  by pat_completeness auto
termination
  by (relation "measure (\<lambda>(lk, idx, k, t, s). unat (10 * nthreads s) - k)") auto

declare push_scan.simps [simp del]

text \<open>The body both overloads of \<open>push\<close> share, from \<open>current_index_++\<close> on. With no queue at
  all, \<open>idx % nthreads_\<close> divides by zero: the result is \<open>None\<close>.\<close>

definition dispatch ::
  "(nat \<Rightarrow> bool) \<Rightarrow> ('a, 'r) task \<Rightarrow> ('a, 'r) task_system \<Rightarrow>
   (('a, 'r) task_system \<times> push_op list) option" where
  "dispatch lk t s =
     (let idx = current_index s;
          s1 = s\<lparr>current_index := idx + 1\<rparr>;
          (r, t', s2, ops) = push_scan lk idx 0 t s1
      in if r then Some (s2, ops)
         else if nthreads s2 = 0 then None
         else (let s3 = s2\<lparr>queued := queued s2 + 1\<rparr>;
                   i = unat (idx mod nthreads s3);
                   (v, t'') = move_task t'
               in Some (s3\<lparr>queues := (queues s3)[i := push v (queues s3 ! i)]\<rparr>,
                        ops @ [Queued_Inc, Blocking_Push i])))"

text \<open>\<open>push (F && f, Args && ... args)\<close> returns the future.\<close>

definition task_system_push ::
  "(nat \<Rightarrow> bool) \<Rightarrow> ('a \<Rightarrow> 'r outcome) \<Rightarrow> 'a \<Rightarrow> ('a, 'r) task_system \<times> 'r heap \<Rightarrow>
   (nat \<times> ('a, 'r) task_system \<times> 'r heap \<times> push_op list) option" where
  "task_system_push lk f x sh =
     (let ((t, fut), h') = make_task f x (snd sh)
      in map_option (\<lambda>(s', ops). (fut, s', h', ops)) (dispatch lk t (fst sh)))"

text \<open>\<open>push (task && t)\<close>.\<close>

definition task_system_push_task ::
  "(nat \<Rightarrow> bool) \<Rightarrow> ('a, 'r) task \<Rightarrow> ('a, 'r) task_system \<Rightarrow>
   (('a, 'r) task_system \<times> push_op list) option" where
  "task_system_push_task lk t s = dispatch lk t s"

text \<open>The protocol as the specification words it, for \<open>n\<close> queues, \<open>m\<close> attempts and the
  dispatch counter read as \<open>idx\<close>: every failed attempt is an increment, a \<open>try_push\<close> and a
  decrement; the first attempt that succeeds ends the submission; after \<open>m\<close> failures an
  increment and a blocking push on queue \<open>idx mod n\<close> end it.\<close>

fun protocol_spec :: "(nat \<Rightarrow> bool) \<Rightarrow> 64 word \<Rightarrow> 64 word \<Rightarrow> nat \<Rightarrow> nat \<Rightarrow> push_op list" where
  "protocol_spec lk idx n k 0 = [Queued_Inc, Blocking_Push (unat (idx mod n))]"
| "protocol_spec lk idx n k (Suc m) =
     (if lk k then [Queued_Inc, Try_Push (queue_index idx k n) True]
      else [Queued_Inc, Try_Push (queue_index idx k n) False, Queued_Dec]
           @ protocol_spec lk idx n (k + 1) m)"

text \<open>The queue that receives the task under the protocol above.\<close>

fun target_spec :: "(nat \<Rightarrow> bool) \<Rightarrow> 64 word \<Rightarrow> 64 word \<Rightarrow> nat \<Rightarrow> nat \<Rightarrow> nat" where
  "target_spec lk idx n k 0 = unat (idx mod n)"
| "target_spec lk idx n k (Suc m) =
     (if lk k then queue_index idx k n else target_spec lk idx n (k + 1) m)"


subsection \<open>\<open>done\<close>, \<open>wait_to_completion\<close> and \<open>reset\<close>\<close>




subsection \<open>The drain loop of \<open>run\<close> (label \<open>finish\<close>)\<close>

text \<open>What the drain loop does to the shared state, in order: a read of \<open>queued_\<close> in the
  loop test, a \<open>try_pop\<close> on a queue with its outcome, \<open>queued_--\<close>, the call of the task,
  \<open>yield\<close>, and the write of the worker's \<open>exited_\<close> flag.\<close>

datatype drain_op = Read_Queued "64 word" | Try_Pop nat bool | Pop_Dec | Invoke | Yield_CPU | Set_Flag

text \<open>One round of the drain loop of worker \<open>wid\<close>, from \<open>k\<close> on: a \<open>try_pop\<close> on each queue
  \<open>(wid + k) % nthreads_\<close>; a task obtained is counted off \<open>queued_\<close> and invoked. An
  exception that leaves the task's call leaves \<open>run\<close>: the result is \<open>Inl\<close>.\<close>

function drain_round ::
  "(nat \<Rightarrow> bool) \<Rightarrow> 64 word \<Rightarrow> nat \<Rightarrow> ('a, 'r) task_system \<times> 'r heap \<Rightarrow>
   (error + ('a, 'r) task_system \<times> 'r heap) \<times> drain_op list" where
  "drain_round lk wid k (s, h) =
     (if k < unat (nthreads s) then
        (let i = queue_index wid k (nthreads s);
             (p, q') = try_pop (lk k) (queues s ! i);
             s1 = s\<lparr>queues := (queues s)[i := q']\<rparr>
         in if fst p then
              (let s2 = s1\<lparr>queued := queued s1 - 1\<rparr>
               in case task_call (snd p) h of
                    Inl e \<Rightarrow> (Inl e, [Try_Pop i True, Pop_Dec, Invoke])
                  | Inr h' \<Rightarrow>
                      (let (r, ops) = drain_round lk wid (k + 1) (s2, h')
                       in (r, [Try_Pop i True, Pop_Dec, Invoke] @ ops)))
            else (let (r, ops) = drain_round lk wid (k + 1) (s1, h)
                  in (r, [Try_Pop i False] @ ops)))
      else (Inr (s, h), []))"
  by pat_completeness auto
termination
  by (relation "measure (\<lambda>(lk, wid, k, s, h). unat (nthreads s) - k)") auto

declare drain_round.simps [simp del]

text \<open>The loop \<open>while (this->queued_)\<close> and the statement after it. \<open>lks\<close> gives the lock
  outcomes of each round to come; \<open>None\<close> is a loop still running when they are used up.\<close>

fun finish ::
  "(nat \<Rightarrow> bool) list \<Rightarrow> 64 word \<Rightarrow> ('a, 'r) task_system \<times> 'r heap \<Rightarrow>
   ((error + ('a, 'r) task_system \<times> 'r heap) \<times> drain_op list) option" where
  "finish lks wid (s, h) =
     (if queued s \<noteq> 0 then
        (case lks of
           [] \<Rightarrow> None
         | lk # lks' \<Rightarrow>
             (case drain_round lk wid 0 (s, h) of
                (Inl e, ops) \<Rightarrow> Some (Inl e, Read_Queued (queued s) # ops)
              | (Inr sh, ops) \<Rightarrow>
                  map_option (\<lambda>(r, ops'). (r, Read_Queued (queued s) # ops @ [Yield_CPU] @ ops'))
                    (finish lks' wid sh)))
      else Some (Inr (s\<lparr>exited := (exited s)[unat wid := True]\<rparr>, h),
                 [Read_Queued (queued s), Set_Flag]))"

declare finish.simps [simp del]

text \<open>The drain loop as the specification words it, for worker \<open>wid\<close> of \<open>n\<close>: a round is one
  \<open>try_pop\<close> on each queue \<open>(wid + k) mod n\<close> in turn, with a decrement and the task's call
  after each one that got a job; a round is made each time the counter is read as non-zero,
  with a yield after it; when the counter is read as zero the flag is set and the loop is
  left. \<open>oks\<close> lists the outcomes of the \<open>try_pop\<close>s of a round, \<open>rs\<close> the counter read and
  the outcomes of each round.\<close>

fun round_spec :: "64 word \<Rightarrow> 64 word \<Rightarrow> nat \<Rightarrow> bool list \<Rightarrow> drain_op list" where
  "round_spec wid n k [] = []"
| "round_spec wid n k (ok # oks) =
     Try_Pop (queue_index wid k n) ok # (if ok then [Pop_Dec, Invoke] else [])
     @ round_spec wid n (k + 1) oks"



section \<open>The threads of a running pool\<close>

text \<open>
  Several threads work on one pool. Each operation on a queue happens under its mutex and
  each access to \<open>queued_\<close> is one atomic read-modify-write, so a run of the program is an
  interleaving of such steps. A step of a thread is a function of the whole state; which
  thread moves, and whether a \<open>try_to_lock\<close> gets its mutex, is the \<open>action\<close>.

  A submitting thread is in one of the places of \<open>push\<close>: before \<open>make_task\<close> and
  \<open>current_index_++\<close>; at the head of the loop with \<open>idx\<close>, \<open>k\<close>, its task and its future; after
  \<open>queued_++\<close> and before \<open>try_push\<close>; after a failed \<open>try_push\<close> and before \<open>queued_--\<close>;
  after the last \<open>queued_++\<close> and before the blocking push; returned.
\<close>

datatype ('a, 'r) submitter =
    Submit "'a \<Rightarrow> 'r outcome" 'a
  | Push_Loop "64 word" nat "('a, 'r) task" nat
  | Push_Try "64 word" nat "('a, 'r) task" nat
  | Push_Dec "64 word" nat "('a, 'r) task" nat
  | Push_Last "64 word" "('a, 'r) task" nat
  | Returned nat

text \<open>The history is not program state: it records, in order, which queue accepted which
  task, which queue gave which task to which worker, and which worker invoked which task.\<close>

datatype ('a, 'r) event =
    Accepted nat "('a, 'r) task"
  | Popped nat nat "('a, 'r) task"
  | Invoked nat "('a, 'r) task"

record ('a, 'r) system =
  pool :: "('a, 'r) task_system"
  heap :: "'r heap"
  submitters :: "('a, 'r) submitter list"
  history :: "('a, 'r) event list"

definition new_system :: "64 word \<Rightarrow> ('a, 'r) submitter list \<Rightarrow> ('a, 'r) system" where
  "new_system n subs = \<lparr>pool = new_task_system n, heap = [], submitters = subs, history = []\<rparr>"

definition set_thread :: "nat \<Rightarrow> ('a, 'r) worker \<Rightarrow> ('a, 'r) system \<Rightarrow> ('a, 'r) system" where
  "set_thread wid w sys = sys\<lparr>pool := (pool sys)\<lparr>threads := (threads (pool sys))[wid := w]\<rparr>\<rparr>"

definition set_queue :: "nat \<Rightarrow> ('a, 'r) task_queue \<Rightarrow> ('a, 'r) system \<Rightarrow> ('a, 'r) system" where
  "set_queue i q sys = sys\<lparr>pool := (pool sys)\<lparr>queues := (queues (pool sys))[i := q]\<rparr>\<rparr>"

definition set_queued :: "64 word \<Rightarrow> ('a, 'r) system \<Rightarrow> ('a, 'r) system" where
  "set_queued c sys = sys\<lparr>pool := (pool sys)\<lparr>queued := c\<rparr>\<rparr>"

definition set_submitter :: "nat \<Rightarrow> ('a, 'r) submitter \<Rightarrow> ('a, 'r) system \<Rightarrow> ('a, 'r) system" where
  "set_submitter j p sys = sys\<lparr>submitters := (submitters sys)[j := p]\<rparr>"

definition log :: "('a, 'r) event \<Rightarrow> ('a, 'r) system \<Rightarrow> ('a, 'r) system" where
  "log e sys = sys\<lparr>history := history sys @ [e]\<rparr>"

text \<open>A \<open>try_pop\<close> of worker \<open>wid\<close> on queue \<open>i\<close>; the worker goes on at \<open>found t\<close> with the task
  it got, or at \<open>missed\<close>.\<close>

definition worker_try_pop ::
  "bool \<Rightarrow> nat \<Rightarrow> nat \<Rightarrow> (('a, 'r) task \<Rightarrow> ('a, 'r) worker) \<Rightarrow> ('a, 'r) worker \<Rightarrow>
   ('a, 'r) system \<Rightarrow> ('a, 'r) system" where
  "worker_try_pop lock wid i found missed sys =
     (let (p, q') = try_pop lock (queues (pool sys) ! i)
      in if fst p then log (Popped wid i (snd p)) (set_thread wid (found (snd p)) (set_queue i q' sys))
         else set_thread wid missed (set_queue i q' sys))"

text \<open>The call \<open>p.second ()\<close> of worker \<open>wid\<close>; an exception that leaves it ends the thread.\<close>

definition worker_call ::
  "nat \<Rightarrow> ('a, 'r) task \<Rightarrow> ('a, 'r) worker \<Rightarrow> ('a, 'r) system \<Rightarrow> ('a, 'r) system" where
  "worker_call wid t next sys =
     (case task_call t (heap sys) of
        Inl e \<Rightarrow> log (Invoked wid t) (set_thread wid (Terminated e) sys)
      | Inr h' \<Rightarrow> log (Invoked wid t) (set_thread wid next (sys\<lparr>heap := h'\<rparr>)))"

text \<open>One step of worker \<open>wid\<close> in \<open>run\<close>. \<open>None\<close>: the worker cannot move, because it waits in
  the blocking \<open>pop\<close> or has ended.\<close>

definition worker_step :: "bool \<Rightarrow> nat \<Rightarrow> ('a, 'r) system \<Rightarrow> ('a, 'r) system option" where
  "worker_step lock wid sys =
     (let s = pool sys in
      if wid < length (threads s) then
        (case threads s ! wid of
           Scan k \<Rightarrow>
             (if k < unat (10 * nthreads s)
              then Some (worker_try_pop lock wid (queue_index (of_nat wid) k (nthreads s))
                           Scan_Dec (Scan (k + 1)) sys)
              else Some (set_thread wid Own_Pop sys))
         | Scan_Dec t \<Rightarrow> Some (set_thread wid (Call t) (set_queued (queued s - 1) sys))
         | Own_Pop \<Rightarrow>
             (case pop [] (queues s ! wid) of
                None \<Rightarrow> None
              | Some (p, q') \<Rightarrow>
                  Some (if fst p
                        then log (Popped wid wid (snd p))
                               (set_thread wid (Own_Dec (snd p)) (set_queue wid q' sys))
                        else set_thread wid Finish (set_queue wid q' sys)))
         | Own_Dec t \<Rightarrow> Some (set_thread wid (Call t) (set_queued (queued s - 1) sys))
         | Call t \<Rightarrow> Some (worker_call wid t (Scan 0) sys)
         | Finish \<Rightarrow> Some (set_thread wid (if queued s \<noteq> 0 then Drain 0 else Set_Exited) sys)
         | Drain k \<Rightarrow>
             (if k < unat (nthreads s)
              then Some (worker_try_pop lock wid (queue_index (of_nat wid) k (nthreads s))
                           (Drain_Dec k) (Drain (k + 1)) sys)
              else Some (set_thread wid Yield sys))
         | Drain_Dec k t \<Rightarrow> Some (set_thread wid (Drain_Call k t) (set_queued (queued s - 1) sys))
         | Drain_Call k t \<Rightarrow> Some (worker_call wid t (Drain (k + 1)) sys)
         | Yield \<Rightarrow> Some (set_thread wid Finish sys)
         | Set_Exited \<Rightarrow>
             Some (set_thread wid Ended (sys\<lparr>pool := s\<lparr>exited := (exited s)[wid := True]\<rparr>\<rparr>))
         | Ended \<Rightarrow> None
         | Terminated e \<Rightarrow> None)
      else None)"

text \<open>One step of submitter \<open>j\<close> in \<open>push\<close>.\<close>

definition submitter_step :: "bool \<Rightarrow> nat \<Rightarrow> ('a, 'r) system \<Rightarrow> ('a, 'r) system option" where
  "submitter_step lock j sys =
     (let s = pool sys in
      if j < length (submitters sys) then
        (case submitters sys ! j of
           Submit f x \<Rightarrow>
             (let ((t, fut), h') = make_task f x (heap sys);
                  idx = current_index s
              in Some (set_submitter j (Push_Loop idx 0 t fut)
                         (sys\<lparr>heap := h', pool := s\<lparr>current_index := idx + 1\<rparr>\<rparr>)))
         | Push_Loop idx k t fut \<Rightarrow>
             (if k < unat (10 * nthreads s)
              then Some (set_submitter j (Push_Try idx k t fut) (set_queued (queued s + 1) sys))
              else Some (set_submitter j (Push_Last idx t fut) (set_queued (queued s + 1) sys)))
         | Push_Try idx k t fut \<Rightarrow>
             (let i = queue_index idx k (nthreads s);
                  (ok, t', q') = try_push lock t (queues s ! i)
              in if ok then Some (log (Accepted i t) (set_submitter j (Returned fut) (set_queue i q' sys)))
                 else Some (set_submitter j (Push_Dec idx k t' fut) (set_queue i q' sys)))
         | Push_Dec idx k t fut \<Rightarrow>
             Some (set_submitter j (Push_Loop idx (k + 1) t fut) (set_queued (queued s - 1) sys))
         | Push_Last idx t fut \<Rightarrow>
             (if nthreads s = 0 then None
              else (let i = unat (idx mod nthreads s)
                    in Some (log (Accepted i t)
                               (set_submitter j (Returned fut)
                                  (set_queue i (push t (queues s ! i)) sys)))))
         | Returned fut \<Rightarrow> None)
      else None)"

text \<open>The actions: a step of a worker, a step of a submitter, and \<open>set_done\<close> on one queue,
  which \<open>done ()\<close> calls for each queue in turn.\<close>

datatype action = Worker nat bool | Submitter nat bool | Set_Done nat

definition step :: "action \<Rightarrow> ('a, 'r) system \<Rightarrow> ('a, 'r) system option" where
  "step a sys =
     (case a of
        Worker wid lock \<Rightarrow> worker_step lock wid sys
      | Submitter j lock \<Rightarrow> submitter_step lock j sys
      | Set_Done i \<Rightarrow>
          (if i < length (queues (pool sys))
           then Some (set_queue i (set_done (queues (pool sys) ! i)) sys)
           else None))"

fun exec :: "action list \<Rightarrow> ('a, 'r) system \<Rightarrow> ('a, 'r) system option" where
  "exec [] sys = Some sys"
| "exec (a # as) sys = (case step a sys of None \<Rightarrow> None | Some sys' \<Rightarrow> exec as sys')"

text \<open>The steps of submitter \<open>j\<close> from the head of its loop at \<open>k\<close>, with \<open>m\<close> turns to go, when
  \<open>lk\<close> gives the outcomes of its \<open>try_to_lock\<close>s and no other thread moves.\<close>

fun push_schedule :: "nat \<Rightarrow> (nat \<Rightarrow> bool) \<Rightarrow> nat \<Rightarrow> nat \<Rightarrow> action list" where
  "push_schedule j lk k 0 = [Submitter j True, Submitter j True]"
| "push_schedule j lk k (Suc m) =
     (if lk k then [Submitter j True, Submitter j True]
      else [Submitter j True, Submitter j False, Submitter j True] @ push_schedule j lk (k + 1) m)"

fun by_worker :: "nat \<Rightarrow> action \<Rightarrow> bool" where
  "by_worker wid (Worker w lock) = (w = wid)"
| "by_worker wid a = False"

subsection \<open>The outstanding-work counter and the jobs in the queues\<close>

text \<open>The jobs that a queue has accepted and no worker has popped yet are the jobs in the
  queues.\<close>

definition jobs_in_queues :: "('a, 'r) system \<Rightarrow> nat" where
  "jobs_in_queues sys = sum_list (map (\<lambda>q. length (tasks q)) (queues (pool sys)))"


text \<open>A submitter counts as pending from its \<open>queued_++\<close> until its push has put the task
  into a queue or its \<open>queued_--\<close> has taken the increment back; a worker from a successful
  pop until its \<open>queued_--\<close>.\<close>

fun submitter_pending :: "('a, 'r) submitter \<Rightarrow> nat" where
  "submitter_pending (Push_Try idx k t fut) = 1"
| "submitter_pending (Push_Dec idx k t fut) = 1"
| "submitter_pending (Push_Last idx t fut) = 1"
| "submitter_pending p = 0"

fun worker_pending :: "('a, 'r) worker \<Rightarrow> nat" where
  "worker_pending (Scan_Dec t) = 1"
| "worker_pending (Own_Dec t) = 1"
| "worker_pending (Drain_Dec k t) = 1"
| "worker_pending w = 0"

definition in_flight :: "('a, 'r) system \<Rightarrow> nat" where
  "in_flight sys =
     sum_list (map submitter_pending (submitters sys))
     + sum_list (map worker_pending (threads (pool sys)))"


definition well_formed :: "('a, 'r) task_system \<Rightarrow> bool" where
  "well_formed s \<longleftrightarrow>
     nthreads s \<noteq> 0 \<and> length (queues s) = unat (nthreads s)
     \<and> length (threads s) = unat (nthreads s) \<and> length (exited s) = unat (nthreads s)"

definition counter_inv :: "('a, 'r) system \<Rightarrow> bool" where
  "counter_inv sys \<longleftrightarrow>
     well_formed (pool sys)
     \<and> queued (pool sys) = of_nat (jobs_in_queues sys + in_flight sys)"

text \<open>A pool is quiet when every submission has returned, the counter is zero, no queue
  holds a job and no worker is between a pop and its \<open>queued_--\<close>.\<close>

fun returned :: "('a, 'r) submitter \<Rightarrow> bool" where
  "returned (Returned fut) = True"
| "returned p = False"

definition quiet :: "('a, 'r) system \<Rightarrow> bool" where
  "quiet sys \<longleftrightarrow>
     well_formed (pool sys) \<and> queued (pool sys) = 0
     \<and> list_all returned (submitters sys)
     \<and> list_all (\<lambda>q. tasks q = []) (queues (pool sys))
     \<and> list_all (\<lambda>w. worker_pending w = 0) (threads (pool sys))"

subsection \<open>\<open>reset\<close> in a running pool\<close>

fun ended :: "('a, 'r) worker \<Rightarrow> bool" where
  "ended Ended = True"
| "ended w = False"


text \<open>In a pool of \<open>n\<close> workers, a worker that has left \<open>run\<close> by its end has set its flag.\<close>

definition exit_inv :: "64 word \<Rightarrow> ('a, 'r) system \<Rightarrow> bool" where
  "exit_inv n sys \<longleftrightarrow>
     nthreads (pool sys) = n \<and> length (threads (pool sys)) = unat n
     \<and> length (exited (pool sys)) = unat n
     \<and> (\<forall>i < unat n. ended (threads (pool sys) ! i) \<longrightarrow> exited (pool sys) ! i)"

subsection \<open>The order of jobs\<close>

text \<open>From the history: the tasks queue \<open>i\<close> accepted, the tasks popped from queue \<open>i\<close>,
  all tasks accepted and all tasks invoked, each in order.\<close>

fun accepted_at :: "nat \<Rightarrow> ('a, 'r) event \<Rightarrow> ('a, 'r) task list" where
  "accepted_at i (Accepted q t) = (if q = i then [t] else [])"
| "accepted_at i e = []"

fun popped_at :: "nat \<Rightarrow> ('a, 'r) event \<Rightarrow> ('a, 'r) task list" where
  "popped_at i (Popped w q t) = (if q = i then [t] else [])"
| "popped_at i e = []"

fun accepted_task :: "('a, 'r) event \<Rightarrow> ('a, 'r) task list" where
  "accepted_task (Accepted q t) = [t]"
| "accepted_task e = []"

fun invoked_task :: "('a, 'r) event \<Rightarrow> ('a, 'r) task list" where
  "invoked_task (Invoked w t) = [t]"
| "invoked_task e = []"

definition accepted_by :: "nat \<Rightarrow> ('a, 'r) event list \<Rightarrow> ('a, 'r) task list" where
  "accepted_by i es = concat (map (accepted_at i) es)"

definition popped_from :: "nat \<Rightarrow> ('a, 'r) event list \<Rightarrow> ('a, 'r) task list" where
  "popped_from i es = concat (map (popped_at i) es)"

definition accepted :: "('a, 'r) event list \<Rightarrow> ('a, 'r) task list" where
  "accepted es = concat (map accepted_task es)"

definition invoked :: "('a, 'r) event list \<Rightarrow> ('a, 'r) task list" where
  "invoked es = concat (map invoked_task es)"

text \<open>The tasks invoked that had been popped from queue \<open>i\<close>, in the order of their
  invocation; \<open>src w\<close> is the queue of the latest pop of worker \<open>w\<close>.\<close>

fun executed_scan :: "nat \<Rightarrow> (nat \<Rightarrow> nat) \<Rightarrow> ('a, 'r) event list \<Rightarrow> ('a, 'r) task list" where
  "executed_scan i src [] = []"
| "executed_scan i src (Popped w q t # es) = executed_scan i (src(w := q)) es"
| "executed_scan i src (Invoked w t # es) =
     (if src w = i then [t] else []) @ executed_scan i src es"
| "executed_scan i src (Accepted q t # es) = executed_scan i src es"

definition executed_from :: "nat \<Rightarrow> ('a, 'r) event list \<Rightarrow> ('a, 'r) task list" where
  "executed_from i es = executed_scan i (\<lambda>w. 0) es"

text \<open>What the claim of the specification says of queue \<open>i\<close> in one state: the jobs of the
  queue that were executed were executed in the order the queue accepted them.\<close>

definition executed_fifo :: "nat \<Rightarrow> ('a, 'r) system \<Rightarrow> bool" where
  "executed_fifo i sys \<longleftrightarrow>
     take (length (executed_from i (history sys))) (accepted_by i (history sys))
       = executed_from i (history sys)"

text \<open>The task a worker has popped and not invoked yet, and the task a submitter has made
  and not handed over yet.\<close>

fun held_by_worker :: "('a, 'r) worker \<Rightarrow> ('a, 'r) task list" where
  "held_by_worker (Scan_Dec t) = [t]"
| "held_by_worker (Own_Dec t) = [t]"
| "held_by_worker (Call t) = [t]"
| "held_by_worker (Drain_Dec k t) = [t]"
| "held_by_worker (Drain_Call k t) = [t]"
| "held_by_worker w = []"

fun held_by_submitter :: "('a, 'r) submitter \<Rightarrow> ('a, 'r) task list" where
  "held_by_submitter (Push_Loop idx k t fut) = [t]"
| "held_by_submitter (Push_Try idx k t fut) = [t]"
| "held_by_submitter (Push_Dec idx k t fut) = [t]"
| "held_by_submitter (Push_Last idx t fut) = [t]"
| "held_by_submitter p = []"

definition fifo_inv :: "('a, 'r) system \<Rightarrow> bool" where
  "fifo_inv sys \<longleftrightarrow>
     well_formed (pool sys)
     \<and> (\<forall>i < length (queues (pool sys)).
          popped_from i (history sys) @ tasks (queues (pool sys) ! i) = accepted_by i (history sys))"

text \<open>The queue of the latest pop of each worker, after the events \<open>es\<close>.\<close>

fun last_source :: "(nat \<Rightarrow> nat) \<Rightarrow> ('a, 'r) event list \<Rightarrow> nat \<Rightarrow> nat" where
  "last_source src [] = src"
| "last_source src (Popped w q t # es) = last_source (src(w := q)) es"
| "last_source src (Invoked w t # es) = last_source src es"
| "last_source src (Accepted q t # es) = last_source src es"

text \<open>In a pool of one worker: the jobs invoked, then the job the worker holds, then the jobs
  in the queue are the jobs accepted, in order; all of them went through queue 0.\<close>

definition single_inv :: "('a, 'r) system \<Rightarrow> bool" where
  "single_inv sys \<longleftrightarrow>
     well_formed (pool sys) \<and> nthreads (pool sys) = 1
     \<and> invoked (history sys) @ held_by_worker (threads (pool sys) ! 0)
         @ tasks (queues (pool sys) ! 0) = accepted (history sys)
     \<and> accepted_by 0 (history sys) = accepted (history sys)
     \<and> executed_from 0 (history sys) = invoked (history sys)
     \<and> last_source (\<lambda>w. 0) (history sys) = (\<lambda>w. 0)"

subsection \<open>Futures and the tasks that write them\<close>

fun future_of :: "('a, 'r) submitter \<Rightarrow> nat option" where
  "future_of (Submit f x) = None"
| "future_of (Push_Loop idx k t fut) = Some fut"
| "future_of (Push_Try idx k t fut) = Some fut"
| "future_of (Push_Dec idx k t fut) = Some fut"
| "future_of (Push_Last idx t fut) = Some fut"
| "future_of (Returned fut) = Some fut"

definition live_tasks :: "('a, 'r) system \<Rightarrow> ('a, 'r) task list" where
  "live_tasks sys =
     concat (map tasks (queues (pool sys)))
     @ concat (map held_by_worker (threads (pool sys)))
     @ concat (map held_by_submitter (submitters sys))"

text \<open>For the submissions \<open>subs\<close> a run started with: every task there is writes to a shared
  state that exists; a submission \<open>f x\<close> that has made its task has a future whose state is
  not ready or holds \<open>f x\<close>, and every task that writes to that state computes \<open>f x\<close>.\<close>

definition promise_inv :: "('a, 'r) submitter list \<Rightarrow> ('a, 'r) system \<Rightarrow> bool" where
  "promise_inv subs sys \<longleftrightarrow>
     well_formed (pool sys) \<and> length (submitters sys) = length subs
     \<and> (\<forall>m. Some m \<in> set (live_tasks sys) \<longrightarrow> shared_state m < length (heap sys))
     \<and> (\<forall>j < length subs. \<forall>f x. subs ! j = Submit f x \<longrightarrow>
          submitters sys ! j = Submit f x
          \<or> (\<exists>fut. future_of (submitters sys ! j) = Some fut \<and> fut < length (heap sys)
                \<and> (heap sys ! fut = None \<or> heap sys ! fut = Some (f x))
                \<and> (\<forall>m. Some m \<in> set (live_tasks sys) \<and> shared_state m = fut \<longrightarrow>
                      packaged_f m (stored_args m) = f x)))"

section \<open>Concrete inputs\<close>

text \<open>A task model used where a property is evaluated on a concrete input: the callable
  \<open>n \<mapsto> n + 1\<close> with the argument \<open>41\<close> and the shared state at address \<open>0\<close>.\<close>

definition example_model :: "(nat, nat) task_model" where
  "example_model = \<lparr>packaged_f = (\<lambda>n. Value (n + 1)), stored_args = 41, shared_state = 0\<rparr>"

section \<open>Properties of tasks\<close>

text \<open>
  Claim C9. Invoking an empty task, or a task that has been moved from, throws the logic
  error "bad task access" out of the call itself. A task that holds a model never does:
  its call either makes the shared state ready with the callable's outcome (a value or
  the failure the callable raised) or fails with the future error of the packaged task.
\<close>

theorem bad_task_access:
  "task_call None h = Inl (Logic_Error ''bad task access'')
   \<and> task_call (snd (move_task t)) h = Inl (Logic_Error ''bad task access'')
   \<and> task_call (Some m) h =
       (if shared_state m < length h \<and> h ! shared_state m = None
        then Inr (h[shared_state m := Some (packaged_f m (stored_args m))])
        else Inl Future_Error)
   \<and> task_call (Some m) h \<noteq> Inl (Logic_Error e)"
  by (auto simp: task_call_def move_task_def invoke_def split: option.splits)

section \<open>Properties of the queue\<close>

text \<open>
  Claim C7. When \<open>try_push\<close> does not get the mutex it returns false, the caller's task is
  what it was and the queue is unchanged. When it gets the mutex it appends the task at the
  back of \<open>tasks\<close>, calls \<open>notify_one\<close> once on the condition variable and returns true; the
  caller's task is then the moved-from, empty one.
\<close>

theorem try_push_contract:
  "try_push False t q = (False, t, q)
   \<and> try_push True t q = (True, None, q\<lparr>tasks := tasks q @ [t], cv := cv q @ [Notify_One]\<rparr>)"
  by (simp add: try_push_def move_task_def)

lemma pop_wait_None:
  "pop_wait obs q = None \<longleftrightarrow> (\<forall>x \<in> set (q # obs). tasks x = [] \<and> \<not> done_flag x)"
  by (induction obs arbitrary: q) auto

lemma pop_wait_Some:
  "pop_wait obs q = Some qw \<Longrightarrow>
   \<exists>i \<le> length obs. qw = (q # obs) ! i \<and> \<not> (tasks qw = [] \<and> \<not> done_flag qw)
      \<and> (\<forall>j<i. tasks ((q # obs) ! j) = [] \<and> \<not> done_flag ((q # obs) ! j))"
proof (induction obs arbitrary: q)
  case Nil
  then show ?case by (auto split: if_splits)
next
  case (Cons a obs)
  show ?case
  proof (cases "tasks q = [] \<and> \<not> done_flag q")
    case True
    with Cons.prems have "pop_wait obs a = Some qw" by simp
    from Cons.IH[OF this] obtain i where i: "i \<le> length obs" "qw = (a # obs) ! i"
      "\<not> (tasks qw = [] \<and> \<not> done_flag qw)"
      "\<forall>j<i. tasks ((a # obs) ! j) = [] \<and> \<not> done_flag ((a # obs) ! j)" by blast
    have "\<forall>j<Suc i. tasks ((q # a # obs) ! j) = [] \<and> \<not> done_flag ((q # a # obs) ! j)"
      using i(4) True by (auto simp: less_Suc_eq_0_disj)
    with i show ?thesis by (intro exI[of _ "Suc i"]) auto
  next
    case False
    with Cons.prems have "qw = q" by auto
    with False show ?thesis by (intro exI[of _ 0]) auto
  qed
qed

text \<open>
  Claim C6. The blocking \<open>pop\<close> waits as long as every queue state it finds (first \<open>q\<close>, then
  the states \<open>obs\<close> at its wake-ups) is empty and not done; it never returns when all of them
  are. It returns with the first state \<open>(q # obs) ! i\<close> that is non-empty or done: not-ok
  with no task and the queue unchanged exactly when that state is empty, and then the done
  latch is set; otherwise ok with the head of \<open>tasks\<close>, which it removes.
\<close>

theorem pop_contract:
  "(pop obs q = None \<longleftrightarrow> (\<forall>x \<in> set (q # obs). tasks x = [] \<and> \<not> done_flag x))
   \<and> (\<forall>ok t q'. pop obs q = Some ((ok, t), q') \<longrightarrow>
        (\<exists>i \<le> length obs.
            (\<forall>j<i. tasks ((q # obs) ! j) = [] \<and> \<not> done_flag ((q # obs) ! j))
          \<and> (ok \<longleftrightarrow> tasks ((q # obs) ! i) \<noteq> [])
          \<and> (\<not> ok \<longrightarrow> done_flag ((q # obs) ! i) \<and> t = None \<and> q' = (q # obs) ! i)
          \<and> (ok \<longrightarrow> t = hd (tasks ((q # obs) ! i))
                \<and> q' = ((q # obs) ! i)\<lparr>tasks := tl (tasks ((q # obs) ! i))\<rparr>)))"
proof (intro conjI allI impI)
  show "pop obs q = None \<longleftrightarrow> (\<forall>x \<in> set (q # obs). tasks x = [] \<and> \<not> done_flag x)"
    unfolding pop_def using pop_wait_None[of obs q] by simp
next
  fix ok t q'
  assume "pop obs q = Some ((ok, t), q')"
  then obtain qw where w: "pop_wait obs q = Some qw" and t: "pop_take qw = ((ok, t), q')"
    by (auto simp: pop_def)
  from pop_wait_Some[OF w] obtain i where i: "i \<le> length obs" "qw = (q # obs) ! i"
      "\<not> (tasks qw = [] \<and> \<not> done_flag qw)"
      "\<forall>j<i. tasks ((q # obs) ! j) = [] \<and> \<not> done_flag ((q # obs) ! j)" by blast
  from t i(3) have "(ok \<longleftrightarrow> tasks qw \<noteq> [])
      \<and> (\<not> ok \<longrightarrow> done_flag qw \<and> t = None \<and> q' = qw)
      \<and> (ok \<longrightarrow> t = hd (tasks qw) \<and> q' = qw\<lparr>tasks := tl (tasks qw)\<rparr>)"
    by (auto simp: pop_take_def split: if_splits)
  with i show "\<exists>i \<le> length obs.
            (\<forall>j<i. tasks ((q # obs) ! j) = [] \<and> \<not> done_flag ((q # obs) ! j))
          \<and> (ok \<longleftrightarrow> tasks ((q # obs) ! i) \<noteq> [])
          \<and> (\<not> ok \<longrightarrow> done_flag ((q # obs) ! i) \<and> t = None \<and> q' = (q # obs) ! i)
          \<and> (ok \<longrightarrow> t = hd (tasks ((q # obs) ! i))
                \<and> q' = ((q # obs) ! i)\<lparr>tasks := tl (tasks ((q # obs) ! i))\<rparr>)"
    by blast
qed

text \<open>The contract at a queue that is empty at first, gets a task, and is then done.\<close>

theorem pop_contract_witness:
  "pop [\<lparr>tasks = [Some example_model], cv = [Notify_One], done_flag = False\<rparr>,
        \<lparr>tasks = [Some example_model], cv = [Notify_One, Notify_All], done_flag = True\<rparr>]
       \<lparr>tasks = [], cv = [], done_flag = False\<rparr>
     = Some ((True, Some example_model), \<lparr>tasks = [], cv = [Notify_One], done_flag = False\<rparr>)
   \<and> (\<exists>i \<le> 2. (True \<longleftrightarrow>
         tasks ((\<lparr>tasks = [], cv = [], done_flag = False\<rparr> #
                 [\<lparr>tasks = [Some example_model], cv = [Notify_One], done_flag = False\<rparr>,
                  \<lparr>tasks = [Some example_model], cv = [Notify_One, Notify_All], done_flag = True\<rparr>]) ! i) \<noteq> []))"
proof -
  have p: "pop [\<lparr>tasks = [Some example_model], cv = [Notify_One], done_flag = False\<rparr>,
        \<lparr>tasks = [Some example_model], cv = [Notify_One, Notify_All], done_flag = True\<rparr>]
       \<lparr>tasks = [], cv = [], done_flag = False\<rparr>
     = Some ((True, Some example_model), \<lparr>tasks = [], cv = [Notify_One], done_flag = False\<rparr>)"
    by (simp add: pop_def pop_take_def)
  from pop_contract[THEN conjunct2, rule_format, OF p] p show ?thesis
    by auto
qed

section \<open>Properties of submission\<close>

lemma push_scan_spec:
  "k + m = unat (10 * nthreads s) \<Longrightarrow>
   push_scan lk idx k t s =
     (if \<exists>j<m. lk (k + j)
      then (True, None,
            s\<lparr>queued := queued s + 1,
              queues := (queues s)[target_spec lk idx (nthreads s) k m :=
                 push t (queues s ! target_spec lk idx (nthreads s) k m)]\<rparr>,
            protocol_spec lk idx (nthreads s) k m)
      else (False, t, s, butlast (butlast (protocol_spec lk idx (nthreads s) k m))))"
proof (induction m arbitrary: k)
  case 0
  then show ?case by (subst push_scan.simps) simp
next
  case (Suc m)
  from Suc.prems have lt: "k < unat (10 * nthreads s)" and eq: "Suc k + m = unat (10 * nthreads s)"
    by simp_all
  show ?case
  proof (cases "lk k")
    case True
    then have "\<exists>j<Suc m. lk (k + j)" by (intro exI[of _ 0]) simp
    with True lt show ?thesis
      by (subst push_scan.simps) (simp add: try_push_def move_task_def push_def Let_def)
  next
    case False
    have ex: "(\<exists>j<Suc m. lk (k + j)) \<longleftrightarrow> (\<exists>j<m. lk (Suc k + j))"
      using False by (auto simp: less_Suc_eq_0_disj)
    have ne: "protocol_spec lk idx (nthreads s) (Suc k) m \<noteq> []"
      "butlast (protocol_spec lk idx (nthreads s) (Suc k) m) \<noteq> []" if "\<not> (\<exists>j<m. lk (Suc k + j))"
      using that by (induction m arbitrary: k; simp add: less_Suc_eq_0_disj)+
    show ?thesis
      using False lt Suc.IH[OF eq] ne
      by (subst push_scan.simps) (simp add: try_push_def Let_def ex butlast_append)
  qed
qed

lemma protocol_spec_ends:
  "\<not> (\<exists>j<m. lk (k + j)) \<Longrightarrow>
   \<exists>pre. protocol_spec lk idx n k m = pre @ [Queued_Inc, Blocking_Push (unat (idx mod n))]
     \<and> target_spec lk idx n k m = unat (idx mod n)"
proof (induction m arbitrary: k)
  case 0
  then show ?case by simp
next
  case (Suc m)
  from Suc.prems have a: "\<not> lk k" and b: "\<not> (\<exists>j<m. lk (Suc k + j))"
    by (auto simp: less_Suc_eq_0_disj)
  from Suc.IH[OF b] obtain pre where
    "protocol_spec lk idx n (Suc k) m = pre @ [Queued_Inc, Blocking_Push (unat (idx mod n))]"
    "target_spec lk idx n (Suc k) m = unat (idx mod n)" by blast
  with a show ?case by simp
qed

lemma protocol_spec_fail:
  assumes "\<not> (\<exists>j<m. lk (k + j))"
  shows "protocol_spec lk idx n k m =
     butlast (butlast (protocol_spec lk idx n k m)) @ [Queued_Inc, Blocking_Push (unat (idx mod n))]
   \<and> target_spec lk idx n k m = unat (idx mod n)"
proof -
  from protocol_spec_ends[OF assms] obtain pre where
    p: "protocol_spec lk idx n k m = pre @ [Queued_Inc, Blocking_Push (unat (idx mod n))]"
    and t: "target_spec lk idx n k m = unat (idx mod n)" by blast
  have "butlast (butlast (pre @ [Queued_Inc, Blocking_Push (unat (idx mod n))])) = pre"
    by (simp add: butlast_append)
  with p t show ?thesis by simp
qed

lemma dispatch_spec:
  assumes "nthreads s \<noteq> 0"
  shows "dispatch lk t s =
     Some (s\<lparr>current_index := current_index s + 1, queued := queued s + 1,
              queues := (queues s)
                [target_spec lk (current_index s) (nthreads s) 0 (unat (10 * nthreads s)) :=
                   push t (queues s !
                     target_spec lk (current_index s) (nthreads s) 0 (unat (10 * nthreads s)))]\<rparr>,
           protocol_spec lk (current_index s) (nthreads s) 0 (unat (10 * nthreads s)))"
proof -
  let ?s1 = "s\<lparr>current_index := current_index s + 1\<rparr>"
  have e: "0 + unat (10 * nthreads s) = unat (10 * nthreads ?s1)" by simp
  note ps = push_scan_spec[OF e, of lk "current_index s" t]
  show ?thesis
  proof (cases "\<exists>j<unat (10 * nthreads s). lk (0 + j)")
    case True
    with ps show ?thesis by (simp add: dispatch_def Let_def)
  next
    case False
    from protocol_spec_fail[OF False, of "current_index s" "nthreads s"] ps False assms
    show ?thesis by (simp add: dispatch_def move_task_def Let_def)
  qed
qed


text \<open>
  Claim C3. A submission reads the dispatch counter \<open>idx\<close> and increments it once. It then
  makes up to \<open>10 * nthreads\<close> attempts on the queues \<open>(idx + k) mod nthreads\<close>, \<open>k = 0, 1, ...\<close>:
  each attempt increments \<open>queued\<close>, calls \<open>try_push\<close>, and decrements \<open>queued\<close> again exactly
  when the \<open>try_push\<close> failed. The first attempt that succeeds ends the submission; when
  every attempt failed, one more increment and a blocking push on queue \<open>idx mod nthreads\<close>
  end it. The operations performed are those of \<open>protocol_spec\<close>, the task is appended to the
  queue \<open>target_spec\<close> names, the counter ends one higher, and the first overload returns the
  future of the new task. Both overloads follow the protocol.
\<close>

theorem submission_dispatch_protocol:
  assumes "nthreads s \<noteq> 0"
  shows "task_system_push lk f x (s, h) =
     Some (length h,
           s\<lparr>current_index := current_index s + 1, queued := queued s + 1,
              queues := (queues s)
                [target_spec lk (current_index s) (nthreads s) 0 (unat (10 * nthreads s)) :=
                   push (Some \<lparr>packaged_f = f, stored_args = x, shared_state = length h\<rparr>)
                     (queues s !
                       target_spec lk (current_index s) (nthreads s) 0 (unat (10 * nthreads s)))]\<rparr>,
           h @ [None],
           protocol_spec lk (current_index s) (nthreads s) 0 (unat (10 * nthreads s)))
   \<and> task_system_push_task lk t s =
     Some (s\<lparr>current_index := current_index s + 1, queued := queued s + 1,
              queues := (queues s)
                [target_spec lk (current_index s) (nthreads s) 0 (unat (10 * nthreads s)) :=
                   push t (queues s !
                     target_spec lk (current_index s) (nthreads s) 0 (unat (10 * nthreads s)))]\<rparr>,
           protocol_spec lk (current_index s) (nthreads s) 0 (unat (10 * nthreads s)))"
  using dispatch_spec[OF assms]
  by (simp add: task_system_push_def task_system_push_task_def make_task_def)

theorem submission_dispatch_protocol_witness:
  "nthreads (new_task_system 2 :: (nat, nat) task_system) \<noteq> 0
   \<and> task_system_push (\<lambda>k. k = 1) (\<lambda>n. Value (n + 1)) (41 :: nat) (new_task_system 2, []) =
     Some (0,
       \<lparr>queues = [new_queue,
                  \<lparr>tasks = [Some \<lparr>packaged_f = \<lambda>n. Value (n + 1), stored_args = 41, shared_state = 0\<rparr>],
                   cv = [Notify_One], done_flag = False\<rparr>],
        threads = [Scan 0, Scan 0], exited = [False, False],
        nthreads = 2, current_index = 1, queued = 1\<rparr>,
       [None],
       [Queued_Inc, Try_Push 0 False, Queued_Dec, Queued_Inc, Try_Push 1 True])"
proof -
  have s: "(new_task_system 2 :: (nat, nat) task_system) =
     \<lparr>queues = [new_queue, new_queue], threads = [Scan 0, Scan 0], exited = [False, False],
      nthreads = 2, current_index = 0, queued = 0\<rparr>"
  proof -
    have "unat (2 :: 64 word) = 2" by simp
    then show ?thesis by (simp add: new_task_system_def numeral_2_eq_2)
  qed
  have n: "nthreads (new_task_system 2 :: (nat, nat) task_system) \<noteq> 0"
    by (simp add: s)
  have m: "(20 :: nat) = Suc (Suc 18)" by simp
  have t: "target_spec (\<lambda>k. k = Suc 0) 0 2 0 20 = Suc 0"
    by code_simp
  have p: "protocol_spec (\<lambda>k. k = Suc 0) 0 2 0 20 =
      [Queued_Inc, Try_Push 0 False, Queued_Dec, Queued_Inc, Try_Push 1 True]"
    by code_simp
  show ?thesis
    using n submission_dispatch_protocol[OF n, of "\<lambda>k. k = 1" "\<lambda>n. Value (n + 1)" 41 "[]" None]
    by (simp add: s t p push_def new_queue_def)
qed

lemma push_loop_steps:
  assumes "j < length (submitters sys)" "submitters sys ! j = Push_Loop idx k t fut"
    "k + m = unat (10 * nthreads (pool sys))" "nthreads (pool sys) \<noteq> 0"
  shows "exec (push_schedule j lk k m) sys =
     Some (sys\<lparr>pool := (pool sys)
                 \<lparr>queued := queued (pool sys) + 1,
                  queues := (queues (pool sys))
                    [target_spec lk idx (nthreads (pool sys)) k m :=
                       push t (queues (pool sys) ! target_spec lk idx (nthreads (pool sys)) k m)]\<rparr>,
               submitters := (submitters sys)[j := Returned fut],
               history := history sys
                 @ [Accepted (target_spec lk idx (nthreads (pool sys)) k m) t]\<rparr>)"
  using assms
proof (induction m arbitrary: k sys)
  case 0
  then show ?case
    by (simp add: step_def submitter_step_def Let_def set_submitter_def set_queued_def
        set_queue_def log_def)
next
  case (Suc m)
  from Suc.prems(3) have lt: "k < unat (10 * nthreads (pool sys))" by simp
  show ?case
  proof (cases "lk k")
    case True
    with Suc.prems lt show ?thesis
      by (simp add: step_def submitter_step_def Let_def set_submitter_def set_queued_def
          set_queue_def log_def try_push_def move_task_def push_def)
  next
    case False
    let ?sys1 = "sys\<lparr>submitters := (submitters sys)[j := Push_Loop idx (Suc k) t fut]\<rparr>"
    have three: "exec [Submitter j True, Submitter j False, Submitter j True] sys = Some ?sys1"
      using Suc.prems lt
      by (simp add: step_def submitter_step_def Let_def set_submitter_def set_queued_def
          set_queue_def try_push_def)
    have ex: "exec (as @ bs) s = (case exec as s of None \<Rightarrow> None | Some s' \<Rightarrow> exec bs s')"
      for as bs and s :: "('a, 'b) system"
      by (induction as arbitrary: s) (auto split: option.splits)
    have "exec (push_schedule j lk (Suc k) m) ?sys1 =
     Some (?sys1\<lparr>pool := (pool ?sys1)
                 \<lparr>queued := queued (pool ?sys1) + 1,
                  queues := (queues (pool ?sys1))
                    [target_spec lk idx (nthreads (pool ?sys1)) (Suc k) m :=
                       push t (queues (pool ?sys1) ! target_spec lk idx (nthreads (pool ?sys1)) (Suc k) m)]\<rparr>,
               submitters := (submitters ?sys1)[j := Returned fut],
               history := history ?sys1
                 @ [Accepted (target_spec lk idx (nthreads (pool ?sys1)) (Suc k) m) t]\<rparr>)"
      using Suc.prems by (intro Suc.IH) simp_all
    moreover have "push_schedule j lk k (Suc m)
        = [Submitter j True, Submitter j False, Submitter j True] @ push_schedule j lk (Suc k) m"
      using False by simp
    then have "exec (push_schedule j lk k (Suc m)) sys
        = exec (push_schedule j lk (Suc k) m) ?sys1"
      by (simp only: ex three option.case)
    moreover have "target_spec lk idx (nthreads (pool sys)) k (Suc m)
        = target_spec lk idx (nthreads (pool sys)) (Suc k) m"
      using False by simp
    ultimately show ?thesis by simp
  qed
qed


text \<open>
  The two embeddings of \<open>push\<close> agree. When submitter \<open>j\<close> of a running pool takes all its
  steps in a row, with the lock outcomes \<open>lk\<close>, it leaves the pool and the heap as the
  function \<open>task_system_push\<close> computes them and holds the future that function returns.
\<close>

lemma push_interleaved:
  assumes "j < length (submitters sys)" "submitters sys ! j = Submit f x"
    "nthreads (pool sys) \<noteq> 0"
  shows "\<exists>sys'. exec (Submitter j True
                      # push_schedule j lk 0 (unat (10 * nthreads (pool sys)))) sys = Some sys'
           \<and> task_system_push lk f x (pool sys, heap sys) =
               Some (length (heap sys), pool sys', heap sys',
                     protocol_spec lk (current_index (pool sys)) (nthreads (pool sys)) 0
                       (unat (10 * nthreads (pool sys))))
           \<and> submitters sys' = (submitters sys)[j := Returned (length (heap sys))]"
proof -
  let ?t = "Some \<lparr>packaged_f = f, stored_args = x, shared_state = length (heap sys)\<rparr>"
  let ?sys0 = "sys\<lparr>heap := heap sys @ [None],
                  pool := (pool sys)\<lparr>current_index := current_index (pool sys) + 1\<rparr>,
                  submitters := (submitters sys)
                    [j := Push_Loop (current_index (pool sys)) 0 ?t (length (heap sys))]\<rparr>"
  have first: "step (Submitter j True) sys = Some ?sys0"
    using assms(1,2)
    by (simp add: step_def submitter_step_def Let_def make_task_def set_submitter_def)
  have loop: "exec (push_schedule j lk 0 (unat (10 * nthreads (pool sys)))) ?sys0 =
     Some (?sys0\<lparr>pool := (pool ?sys0)
                 \<lparr>queued := queued (pool ?sys0) + 1,
                  queues := (queues (pool ?sys0))
                    [target_spec lk (current_index (pool sys)) (nthreads (pool ?sys0)) 0
                       (unat (10 * nthreads (pool sys))) :=
                       push ?t (queues (pool ?sys0) !
                         target_spec lk (current_index (pool sys)) (nthreads (pool ?sys0)) 0
                           (unat (10 * nthreads (pool sys))))]\<rparr>,
               submitters := (submitters ?sys0)[j := Returned (length (heap sys))],
               history := history ?sys0
                 @ [Accepted (target_spec lk (current_index (pool sys)) (nthreads (pool ?sys0)) 0
                       (unat (10 * nthreads (pool sys)))) ?t]\<rparr>)"
    using assms by (intro push_loop_steps) simp_all
  have seq: "task_system_push lk f x (pool sys, heap sys) =
     Some (length (heap sys),
           (pool sys)\<lparr>current_index := current_index (pool sys) + 1,
              queued := queued (pool sys) + 1,
              queues := (queues (pool sys))
                [target_spec lk (current_index (pool sys)) (nthreads (pool sys)) 0
                   (unat (10 * nthreads (pool sys))) :=
                   push ?t (queues (pool sys) !
                       target_spec lk (current_index (pool sys)) (nthreads (pool sys)) 0
                         (unat (10 * nthreads (pool sys))))]\<rparr>,
           heap sys @ [None],
           protocol_spec lk (current_index (pool sys)) (nthreads (pool sys)) 0
             (unat (10 * nthreads (pool sys))))"
    using dispatch_spec[OF assms(3), of lk ?t]
    by (simp add: task_system_push_def make_task_def)
  show ?thesis
    using first loop seq by simp
qed

section \<open>Properties of the drain loop\<close>

lemma drain_round_spec:
  "k + m = unat (nthreads s) \<Longrightarrow> drain_round lk wid k (s, h) = (Inr (s', h'), ops) \<Longrightarrow>
   nthreads s' = nthreads s \<and> exited s' = exited s
   \<and> (\<exists>oks. length oks = m \<and> ops = round_spec wid (nthreads s) k oks)"
proof (induction m arbitrary: k s h ops)
  case 0
  then show ?case by (subst (asm) drain_round.simps) simp
next
  case (Suc m)
  let ?i = "queue_index wid k (nthreads s)"
  from Suc.prems(1) have lt: "k < unat (nthreads s)" by simp
  show ?case
  proof (cases "fst (fst (try_pop (lk k) (queues s ! ?i)))")
    case True
    let ?s2 = "s\<lparr>queues := (queues s)[?i := snd (try_pop (lk k) (queues s ! ?i))],
                 queued := queued s - 1\<rparr>"
    from Suc.prems(2) True lt obtain h1 ops1 where
      c: "task_call (snd (fst (try_pop (lk k) (queues s ! ?i)))) h = Inr h1"
      and r: "drain_round lk wid (Suc k) (?s2, h1) = (Inr (s', h'), ops1)"
      and o: "ops = [Try_Pop ?i True, Pop_Dec, Invoke] @ ops1"
      by (subst (asm) drain_round.simps)
        (auto simp: Let_def split: prod.splits sum.splits)
    from Suc.prems(1) have "Suc k + m = unat (nthreads ?s2)" by simp
    from Suc.IH[OF this r] obtain oks where
      "nthreads s' = nthreads s" "exited s' = exited s" "length oks = m"
      "ops1 = round_spec wid (nthreads s) (Suc k) oks" by auto
    with o show ?thesis by (intro conjI exI[of _ "True # oks"]) simp_all
  next
    case False
    let ?s1 = "s\<lparr>queues := (queues s)[?i := snd (try_pop (lk k) (queues s ! ?i))]\<rparr>"
    from Suc.prems(2) False lt obtain ops1 where
      r: "drain_round lk wid (Suc k) (?s1, h) = (Inr (s', h'), ops1)"
      and o: "ops = [Try_Pop ?i False] @ ops1"
      by (subst (asm) drain_round.simps)
        (auto simp: Let_def split: prod.splits sum.splits)
    from Suc.prems(1) have "Suc k + m = unat (nthreads ?s1)" by simp
    from Suc.IH[OF this r] obtain oks where
      "nthreads s' = nthreads s" "exited s' = exited s" "length oks = m"
      "ops1 = round_spec wid (nthreads s) (Suc k) oks" by auto
    with o show ?thesis by (intro conjI exI[of _ "False # oks"]) simp_all
  qed
qed




lemma exec_append:
  "exec (as @ bs) s = (case exec as s of None \<Rightarrow> None | Some s' \<Rightarrow> exec bs s')"
  by (induction as arbitrary: s) (auto split: option.splits)

lemma rel_fields:
  assumes "s\<lparr>threads := ths\<rparr> = p"
  shows "queues s = queues p" "nthreads s = nthreads p" "queued s = queued p"
    "exited s = exited p" "current_index s = current_index p"
  using assms by auto

lemma rel_intro:
  fixes s p :: "('a, 'r) task_system"
  assumes "queues s = queues p" "nthreads s = nthreads p" "queued s = queued p"
    "exited s = exited p" "current_index s = current_index p"
  shows "s\<lparr>threads := threads p\<rparr> = p"
  using assms by (intro task_system.equality) simp_all

lemma drain_round_steps:
  assumes "wid < length (threads (pool sys))" "threads (pool sys) ! wid = Drain k"
    "k + m = unat (nthreads (pool sys))" "s\<lparr>threads := threads (pool sys)\<rparr> = pool sys"
    "drain_round lk (of_nat wid) k (s, heap sys) = (Inr (s1, h1), ops)"
  shows "\<exists>as sys1. list_all (by_worker wid) as \<and> exec as sys = Some sys1
     \<and> pool sys1 = s1\<lparr>threads := (threads (pool sys))[wid := Drain (k + m)]\<rparr>
     \<and> heap sys1 = h1 \<and> submitters sys1 = submitters sys"
  using assms
proof (induction m arbitrary: k sys s ops)
  case 0
  from rel_fields[OF "0.prems"(4)] have n: "nthreads s = nthreads (pool sys)" by simp
  from "0.prems"(3,5) n have "s1 = s" "h1 = heap sys"
    by (subst (asm) drain_round.simps; simp)+
  moreover have "(threads (pool sys))[wid := Drain k] = threads (pool sys)"
    using "0.prems"(2) by (metis list_update_id)
  ultimately have "pool sys = s1\<lparr>threads := (threads (pool sys))[wid := Drain (k + 0)]\<rparr>"
    using "0.prems"(4) by simp
  then show ?case by (intro exI[of _ "[]"] exI[of _ sys]) (simp add: \<open>h1 = heap sys\<close>)
next
  case (Suc m)
  note f = rel_fields[OF Suc.prems(4)]
  let ?N = "nthreads (pool sys)"
  let ?i = "queue_index (of_nat wid) k ?N"
  obtain ok t q' where tp: "try_pop (lk k) (queues (pool sys) ! ?i) = ((ok, t), q')"
    by (metis prod.collapse)
  from Suc.prems(3) have lt: "k < unat ?N" by simp
  show ?case
  proof (cases ok)
    case True
    with tp have r: "try_pop (lk k) (queues (pool sys) ! ?i) = ((True, t), q')" by simp
    let ?s2 = "s\<lparr>queues := (queues s)[?i := q'], queued := queued s - 1\<rparr>"
    from Suc.prems(5) lt f r obtain h' ops1 where
      call: "task_call t (heap sys) = Inr h'"
      and rec: "drain_round lk (of_nat wid) (Suc k) (?s2, h') = (Inr (s1, h1), ops1)"
      by (subst (asm) drain_round.simps) (auto simp: Let_def split: sum.splits prod.splits)
    let ?sysC = "sys\<lparr>pool := (pool sys)\<lparr>queues := (queues (pool sys))[?i := q'],
                                    queued := queued (pool sys) - 1,
                                    threads := (threads (pool sys))[wid := Drain (Suc k)]\<rparr>,
                    heap := h',
                    history := history sys @ [Popped wid ?i t, Invoked wid t]\<rparr>"
    have three: "exec [Worker wid (lk k), Worker wid True, Worker wid True] sys = Some ?sysC"
      using Suc.prems(1,2) lt r call
      by (simp add: step_def worker_step_def Let_def worker_try_pop_def worker_call_def
          set_thread_def set_queue_def set_queued_def log_def)
    have rel: "?s2\<lparr>threads := threads (pool ?sysC)\<rparr> = pool ?sysC"
      using f by (intro rel_intro) simp_all
    have "\<exists>as sys1. list_all (by_worker wid) as \<and> exec as ?sysC = Some sys1
       \<and> pool sys1 = s1\<lparr>threads := (threads (pool ?sysC))[wid := Drain (Suc k + m)]\<rparr>
       \<and> heap sys1 = h1 \<and> submitters sys1 = submitters ?sysC"
    proof (rule Suc.IH[OF _ _ _ rel])
      show "wid < length (threads (pool ?sysC))" using Suc.prems(1) by simp
      show "threads (pool ?sysC) ! wid = Drain (Suc k)" using Suc.prems(1) by simp
      show "Suc k + m = unat (nthreads (pool ?sysC))" using Suc.prems(3) by simp
      show "drain_round lk (of_nat wid) (Suc k) (?s2, heap ?sysC) = (Inr (s1, h1), ops1)"
        using rec by simp
    qed
    then obtain as sys1 where a: "list_all (by_worker wid) as" "exec as ?sysC = Some sys1"
      "pool sys1 = s1\<lparr>threads := (threads (pool ?sysC))[wid := Drain (Suc k + m)]\<rparr>"
      "heap sys1 = h1" "submitters sys1 = submitters ?sysC" by blast
    have "exec ([Worker wid (lk k), Worker wid True, Worker wid True] @ as) sys = Some sys1"
      by (simp only: exec_append three option.case a(2))
    moreover have "list_all (by_worker wid) ([Worker wid (lk k), Worker wid True, Worker wid True] @ as)"
      using a(1) by simp
    moreover have "pool sys1 = s1\<lparr>threads := (threads (pool sys))[wid := Drain (k + Suc m)]\<rparr>"
      using a(3) by simp
    moreover have "submitters sys1 = submitters sys" using a(5) by simp
    ultimately show ?thesis using a(4) by blast
  next
    case False
    with tp have r: "try_pop (lk k) (queues (pool sys) ! ?i) = ((False, t), q')" by simp
    let ?s2 = "s\<lparr>queues := (queues s)[?i := q']\<rparr>"
    from Suc.prems(5) lt f r obtain ops1 where
      rec: "drain_round lk (of_nat wid) (Suc k) (?s2, heap sys) = (Inr (s1, h1), ops1)"
      by (subst (asm) drain_round.simps) (auto simp: Let_def split: sum.splits prod.splits)
    let ?sysC = "sys\<lparr>pool := (pool sys)\<lparr>queues := (queues (pool sys))[?i := q'],
                                    threads := (threads (pool sys))[wid := Drain (Suc k)]\<rparr>\<rparr>"
    have one: "exec [Worker wid (lk k)] sys = Some ?sysC"
      using Suc.prems(1,2) lt r
      by (simp add: step_def worker_step_def Let_def worker_try_pop_def
          set_thread_def set_queue_def)
    have rel: "?s2\<lparr>threads := threads (pool ?sysC)\<rparr> = pool ?sysC"
      using f by (intro rel_intro) simp_all
    have "\<exists>as sys1. list_all (by_worker wid) as \<and> exec as ?sysC = Some sys1
       \<and> pool sys1 = s1\<lparr>threads := (threads (pool ?sysC))[wid := Drain (Suc k + m)]\<rparr>
       \<and> heap sys1 = h1 \<and> submitters sys1 = submitters ?sysC"
    proof (rule Suc.IH[OF _ _ _ rel])
      show "wid < length (threads (pool ?sysC))" using Suc.prems(1) by simp
      show "threads (pool ?sysC) ! wid = Drain (Suc k)" using Suc.prems(1) by simp
      show "Suc k + m = unat (nthreads (pool ?sysC))" using Suc.prems(3) by simp
      show "drain_round lk (of_nat wid) (Suc k) (?s2, heap ?sysC) = (Inr (s1, h1), ops1)"
        using rec by simp
    qed
    then obtain as sys1 where a: "list_all (by_worker wid) as" "exec as ?sysC = Some sys1"
      "pool sys1 = s1\<lparr>threads := (threads (pool ?sysC))[wid := Drain (Suc k + m)]\<rparr>"
      "heap sys1 = h1" "submitters sys1 = submitters ?sysC" by blast
    have "exec ([Worker wid (lk k)] @ as) sys = Some sys1"
      by (simp only: exec_append one option.case a(2))
    moreover have "list_all (by_worker wid) ([Worker wid (lk k)] @ as)"
      using a(1) by simp
    moreover have "pool sys1 = s1\<lparr>threads := (threads (pool sys))[wid := Drain (k + Suc m)]\<rparr>"
      using a(3) by simp
    moreover have "submitters sys1 = submitters sys" using a(5) by simp
    ultimately show ?thesis using a(4) by blast
  qed
qed


lemma finish_steps:
  assumes "wid < 2 ^ 64" "wid < length (threads (pool sys))" "threads (pool sys) ! wid = Finish"
    "s\<lparr>threads := threads (pool sys)\<rparr> = pool sys"
    "finish lks (of_nat wid) (s, heap sys) = Some (Inr (s', h'), ops)"
  shows "\<exists>as sys'. list_all (by_worker wid) as \<and> exec as sys = Some sys'
     \<and> pool sys' = s'\<lparr>threads := (threads (pool sys))[wid := Ended]\<rparr>
     \<and> heap sys' = h' \<and> submitters sys' = submitters sys"
  using assms(2-)
proof (induction lks arbitrary: sys s ops)
  case Nil
  note f = rel_fields[OF Nil.prems(3)]
  from assms(1) have u: "unat (of_nat wid :: 64 word) = wid" by (simp add: unat_of_nat)
  from Nil.prems(4) have z: "queued s = 0"
    and r: "s' = s\<lparr>exited := (exited s)[wid := True]\<rparr>" "h' = heap sys"
    by (subst (asm) finish.simps; simp add: u split: if_splits)+
  let ?sys' = "sys\<lparr>pool := (pool sys)\<lparr>exited := (exited (pool sys))[wid := True],
                                    threads := (threads (pool sys))[wid := Ended]\<rparr>\<rparr>"
  have e: "exec [Worker wid True, Worker wid True] sys = Some ?sys'"
    using Nil.prems(1,2) z f
    by (simp add: step_def worker_step_def Let_def set_thread_def)
  have "pool ?sys' = s'\<lparr>threads := (threads (pool sys))[wid := Ended]\<rparr>"
    unfolding r using f by (intro task_system.equality) simp_all
  with e r(2) show ?case
    by (intro exI[of _ "[Worker wid True, Worker wid True]"] exI[of _ ?sys']) simp
next
  case (Cons lk lks)
  note f = rel_fields[OF Cons.prems(3)]
  from assms(1) have u: "unat (of_nat wid :: 64 word) = wid" by (simp add: unat_of_nat)
  show ?case
  proof (cases "queued s = 0")
    case True
    with Cons.prems(4) have r: "s' = s\<lparr>exited := (exited s)[wid := True]\<rparr>" "h' = heap sys"
      by (subst (asm) finish.simps; simp add: u)+
    let ?sys' = "sys\<lparr>pool := (pool sys)\<lparr>exited := (exited (pool sys))[wid := True],
                                      threads := (threads (pool sys))[wid := Ended]\<rparr>\<rparr>"
    have e: "exec [Worker wid True, Worker wid True] sys = Some ?sys'"
      using Cons.prems(1,2) True f
      by (simp add: step_def worker_step_def Let_def set_thread_def)
    have "pool ?sys' = s'\<lparr>threads := (threads (pool sys))[wid := Ended]\<rparr>"
      unfolding r using f by (intro task_system.equality) simp_all
    with e r(2) show ?thesis
      by (intro exI[of _ "[Worker wid True, Worker wid True]"] exI[of _ ?sys']) simp
  next
    case False
    with Cons.prems(4) obtain s1 h1 ops1 ops2 where
      d: "drain_round lk (of_nat wid) 0 (s, heap sys) = (Inr (s1, h1), ops1)"
      and fi: "finish lks (of_nat wid) (s1, h1) = Some (Inr (s', h'), ops2)"
      by (subst (asm) finish.simps) (auto split: prod.splits sum.splits)
    have "0 + unat (nthreads s) = unat (nthreads s)" by simp
    from drain_round_spec[OF this d] have n1: "nthreads s1 = nthreads s" by simp
    let ?sysA = "sys\<lparr>pool := (pool sys)\<lparr>threads := (threads (pool sys))[wid := Drain 0]\<rparr>\<rparr>"
    have a: "exec [Worker wid True] sys = Some ?sysA"
      using Cons.prems(1,2) False f
      by (simp add: step_def worker_step_def Let_def set_thread_def)
    have relA: "s\<lparr>threads := threads (pool ?sysA)\<rparr> = pool ?sysA"
      using f by (intro rel_intro) simp_all
    have "\<exists>as sys1. list_all (by_worker wid) as \<and> exec as ?sysA = Some sys1
       \<and> pool sys1 = s1\<lparr>threads := (threads (pool ?sysA))[wid := Drain (0 + unat (nthreads (pool sys)))]\<rparr>
       \<and> heap sys1 = h1 \<and> submitters sys1 = submitters ?sysA"
    proof (rule drain_round_steps[OF _ _ _ relA])
      show "wid < length (threads (pool ?sysA))" using Cons.prems(1) by simp
      show "threads (pool ?sysA) ! wid = Drain 0" using Cons.prems(1) by simp
      show "0 + unat (nthreads (pool sys)) = unat (nthreads (pool ?sysA))" by simp
      show "drain_round lk (of_nat wid) 0 (s, heap ?sysA) = (Inr (s1, h1), ops1)"
        using d by simp
    qed
    then obtain as1 sysB where b: "list_all (by_worker wid) as1" "exec as1 ?sysA = Some sysB"
      "pool sysB = s1\<lparr>threads := (threads (pool sys))[wid := Drain (unat (nthreads (pool sys)))]\<rparr>"
      "heap sysB = h1" "submitters sysB = submitters sys"
      by auto
    let ?sysD = "sysB\<lparr>pool := (pool sysB)\<lparr>threads := (threads (pool sysB))[wid := Finish]\<rparr>\<rparr>"
    have c: "exec [Worker wid True, Worker wid True] sysB = Some ?sysD"
      using Cons.prems(1) b(3) n1 f
      by (simp add: step_def worker_step_def Let_def set_thread_def)
    have relD: "s1\<lparr>threads := threads (pool ?sysD)\<rparr> = pool ?sysD"
      using b(3) by (intro rel_intro) simp_all
    have "\<exists>as sys'. list_all (by_worker wid) as \<and> exec as ?sysD = Some sys'
       \<and> pool sys' = s'\<lparr>threads := (threads (pool ?sysD))[wid := Ended]\<rparr>
       \<and> heap sys' = h' \<and> submitters sys' = submitters ?sysD"
    proof (rule Cons.IH[OF _ _ relD])
      show "wid < length (threads (pool ?sysD))" using Cons.prems(1) b(3) by simp
      show "threads (pool ?sysD) ! wid = Finish" using Cons.prems(1) b(3) by simp
      show "finish lks (of_nat wid) (s1, heap ?sysD) = Some (Inr (s', h'), ops2)"
        using fi b(4) by simp
    qed
    then obtain as2 sys' where e: "list_all (by_worker wid) as2" "exec as2 ?sysD = Some sys'"
      "pool sys' = s'\<lparr>threads := (threads (pool ?sysD))[wid := Ended]\<rparr>"
      "heap sys' = h'" "submitters sys' = submitters ?sysD" by blast
    let ?as = "[Worker wid True] @ as1 @ [Worker wid True, Worker wid True] @ as2"
    have "exec ?as sys = Some sys'"
      by (simp only: exec_append a b(2) c e(2) option.case)
    moreover have "list_all (by_worker wid) ?as" using b(1) e(1) by simp
    moreover have "pool sys' = s'\<lparr>threads := (threads (pool sys))[wid := Ended]\<rparr>"
      using e(3) b(3) by simp
    moreover have "submitters sys' = submitters sys" using e(5) b(5) by simp
    ultimately show ?thesis using e(4) by blast
  qed
qed


text \<open>
  The two embeddings of the drain loop agree. When worker \<open>wid\<close> of a running pool stands at
  the head of the drain loop and the function \<open>finish\<close> ends normally on the pool and the
  heap, the worker can take its steps in a row, with no other thread moving, and leaves the
  pool and the heap as \<open>finish\<close> computes them, with its thread ended.
\<close>

lemma finish_interleaved:
  assumes "well_formed (pool sys)" "wid < length (threads (pool sys))"
    "threads (pool sys) ! wid = Finish"
    "finish lks (of_nat wid) (pool sys, heap sys) = Some (Inr (s', h'), ops)"
  shows "\<exists>as sys'. list_all (by_worker wid) as \<and> exec as sys = Some sys'
     \<and> pool sys' = s'\<lparr>threads := (threads (pool sys))[wid := Ended]\<rparr>
     \<and> heap sys' = h' \<and> submitters sys' = submitters sys"
proof -
  from assms(1,2) have "wid < unat (nthreads (pool sys))" by (simp add: well_formed_def)
  also have "\<dots> < 2 ^ 64"
    using unsigned_less[of "nthreads (pool sys)", where ?'a = nat] by simp
  finally have w: "wid < 2 ^ 64" .
  have r: "(pool sys)\<lparr>threads := threads (pool sys)\<rparr> = pool sys" by simp
  from finish_steps[OF w assms(2,3) r assms(4)] show ?thesis .
qed

section \<open>The outstanding-work counter\<close>






lemma counter_inv_log [simp]: "counter_inv (log e sys) = counter_inv sys"
  by (simp add: counter_inv_def log_def jobs_in_queues_def in_flight_def)

lemma counter_inv_heap [simp]: "counter_inv (sys\<lparr>heap := h\<rparr>) = counter_inv sys"
  by (simp add: counter_inv_def jobs_in_queues_def in_flight_def)




















lemmas step_defs =
  step_def submitter_step_def worker_step_def worker_try_pop_def worker_call_def
  set_thread_def set_queue_def set_queued_def set_submitter_def log_def
  make_task_def try_push_def try_pop_def move_task_def push_def pop_def pop_take_def
  task_call_def invoke_def queue_index_def new_queue_def set_done_def

lemma new_system_1:
  "new_system 1 subs =
     \<lparr>pool = \<lparr>queues = [new_queue], threads = [Scan 0], exited = [False],
              nthreads = 1, current_index = 0, queued = 0\<rparr>,
      heap = [], submitters = subs, history = []\<rparr>"
  by (simp add: new_system_def new_task_system_def)



section \<open>Properties of \<open>wait_to_completion\<close> and \<open>reset\<close>\<close>



lemma quiet_frame [simp]:
  "quiet (log e sys) = quiet sys"
  "quiet (sys\<lparr>heap := h\<rparr>) = quiet sys"
  by (simp_all add: quiet_def log_def)













lemma exit_inv_log [simp]: "exit_inv n (log e sys) = exit_inv n sys"
  by (simp add: exit_inv_def log_def)

lemma exit_inv_heap [simp]: "exit_inv n (sys\<lparr>heap := h\<rparr>) = exit_inv n sys"
  by (simp add: exit_inv_def)

lemma exit_inv_set_queue [simp]: "exit_inv n (set_queue i q sys) = exit_inv n sys"
  by (simp add: exit_inv_def set_queue_def)

lemma exit_inv_set_queued [simp]: "exit_inv n (set_queued c sys) = exit_inv n sys"
  by (simp add: exit_inv_def set_queued_def)

lemma exit_inv_set_submitter [simp]: "exit_inv n (set_submitter j p sys) = exit_inv n sys"
  by (simp add: exit_inv_def set_submitter_def)

lemma exit_inv_set_thread:
  assumes "exit_inv n sys" "\<not> ended w"
  shows "exit_inv n (set_thread wid w sys)"
proof -
  have "ended ((threads (pool sys))[wid := w] ! i) \<Longrightarrow> ended (threads (pool sys) ! i)" for i
    using assms(2)
    by (cases "i = wid"; cases "wid < length (threads (pool sys))")
      (simp_all add: list_update_beyond not_less)
  with assms(1) show ?thesis
    by (simp add: exit_inv_def set_thread_def)
qed

lemma exit_inv_worker_try_pop:
  "exit_inv n sys \<Longrightarrow> \<not> ended missed \<Longrightarrow> (\<And>t. \<not> ended (found t)) \<Longrightarrow>
   exit_inv n (worker_try_pop lock wid i found missed sys)"
  by (simp add: worker_try_pop_def exit_inv_set_thread split: prod.splits)

lemma exit_inv_worker_call:
  "exit_inv n sys \<Longrightarrow> \<not> ended w \<Longrightarrow> exit_inv n (worker_call wid t w sys)"
  by (simp add: worker_call_def exit_inv_set_thread split: sum.splits)

lemma worker_step_exit_inv:
  assumes inv: "exit_inv n sys" and st: "worker_step lock wid sys = Some sys'"
  shows "exit_inv n sys'"
proof -
  from st have wid: "wid < length (threads (pool sys))"
    by (simp add: worker_step_def Let_def split: if_splits)
  note ws = worker_step_def Let_def exit_inv_set_thread exit_inv_worker_try_pop
    exit_inv_worker_call
  show ?thesis
  proof (cases "threads (pool sys) ! wid")
    case (Scan k)
    with st inv wid show ?thesis by (cases "k < unat (10 * nthreads (pool sys))") (auto simp: ws)
  next
    case (Scan_Dec t)
    with st inv wid show ?thesis by (auto simp: ws)
  next
    case Own_Pop
    with st inv wid show ?thesis
      by (cases "pop [] (queues (pool sys) ! wid)") (auto simp: ws)
  next
    case (Own_Dec t)
    with st inv wid show ?thesis by (auto simp: ws)
  next
    case (Call t)
    with st inv wid show ?thesis by (auto simp: ws)
  next
    case Finish
    with st inv wid show ?thesis by (auto simp: ws)
  next
    case (Drain k)
    with st inv wid show ?thesis by (cases "k < unat (nthreads (pool sys))") (auto simp: ws)
  next
    case (Drain_Dec k t)
    with st inv wid show ?thesis by (auto simp: ws)
  next
    case (Drain_Call k t)
    with st inv wid show ?thesis by (auto simp: ws)
  next
    case Yield
    with st inv wid show ?thesis by (auto simp: ws)
  next
    case Set_Exited
    with st wid have "sys' = set_thread wid Ended
        (sys\<lparr>pool := (pool sys)\<lparr>exited := (exited (pool sys))[wid := True]\<rparr>\<rparr>)"
      by (simp add: worker_step_def Let_def)
    with inv wid show ?thesis
      by (auto simp: exit_inv_def set_thread_def nth_list_update)
  next
    case Ended
    with st wid show ?thesis by (simp add: worker_step_def Let_def)
  next
    case (Terminated e)
    with st wid show ?thesis by (simp add: worker_step_def Let_def)
  qed
qed

lemma submitter_step_exit_inv:
  assumes inv: "exit_inv n sys" and st: "submitter_step lock j sys = Some sys'"
  shows "exit_inv n sys'"
proof -
  from st have j: "j < length (submitters sys)"
    by (simp add: submitter_step_def Let_def split: if_splits)
  have h: "exit_inv n (sys\<lparr>heap := h', pool := (pool sys)\<lparr>current_index := c\<rparr>\<rparr>)" for h' c
    using inv by (simp add: exit_inv_def)
  show ?thesis
  proof (cases "submitters sys ! j")
    case (Submit f x)
    with st j h show ?thesis by (auto simp: submitter_step_def Let_def make_task_def)
  next
    case (Push_Loop idx k t fut)
    with st j inv show ?thesis
      by (cases "k < unat (10 * nthreads (pool sys))") (auto simp: submitter_step_def Let_def)
  next
    case (Push_Try idx k t fut)
    with st j inv show ?thesis
      by (cases lock) (auto simp: submitter_step_def Let_def try_push_def move_task_def)
  next
    case (Push_Dec idx k t fut)
    with st j inv show ?thesis by (auto simp: submitter_step_def Let_def)
  next
    case (Push_Last idx t fut)
    with st j inv show ?thesis
      by (cases "nthreads (pool sys) = 0") (auto simp: submitter_step_def Let_def)
  next
    case (Returned fut)
    with st j show ?thesis by (simp add: submitter_step_def Let_def)
  qed
qed

lemma step_exit_inv:
  assumes "exit_inv n sys" "step a sys = Some sys'"
  shows "exit_inv n sys'"
proof (cases a)
  case (Worker wid lock)
  with assms show ?thesis by (simp add: step_def worker_step_exit_inv)
next
  case (Submitter j lock)
  with assms show ?thesis by (simp add: step_def submitter_step_exit_inv)
next
  case (Set_Done i)
  with assms show ?thesis by (auto simp: step_def split: if_splits)
qed

lemma exec_exit_inv: "exit_inv n sys \<Longrightarrow> exec as sys = Some sys' \<Longrightarrow> exit_inv n sys'"
  by (induction as arbitrary: sys) (auto split: option.splits dest: step_exit_inv)

lemma new_system_exit_inv: "exit_inv n (new_system n subs)"
  by (simp add: exit_inv_def new_system_def new_task_system_def)





section \<open>The order of jobs\<close>

lemma nth_update_cases: "(xs[i := x]) ! j = (if i = j \<and> i < length xs then x else xs ! j)"
  by (cases "i < length xs") (auto simp: list_update_beyond not_less)

lemma history_snoc [simp]:
  "accepted_by i (es @ [e]) = accepted_by i es @ accepted_at i e"
  "popped_from i (es @ [e]) = popped_from i es @ popped_at i e"
  "accepted (es @ [e]) = accepted es @ accepted_task e"
  "invoked (es @ [e]) = invoked es @ invoked_task e"
  by (simp_all add: accepted_by_def popped_from_def accepted_def invoked_def)

lemma fifo_inv_frame [simp]:
  "fifo_inv (set_thread wid w sys) = fifo_inv sys"
  "fifo_inv (set_queued c sys) = fifo_inv sys"
  "fifo_inv (set_submitter j p sys) = fifo_inv sys"
  "fifo_inv (sys\<lparr>heap := h\<rparr>) = fifo_inv sys"
  "fifo_inv (log (Invoked wid t) sys) = fifo_inv sys"
  by (simp_all add: fifo_inv_def set_thread_def set_queued_def set_submitter_def log_def
      well_formed_def)

lemma fifo_inv_same:
  assumes "fifo_inv sys" "tasks q = tasks (queues (pool sys) ! i)"
  shows "fifo_inv (set_queue i q sys)"
  using assms
  by (auto simp: fifo_inv_def set_queue_def well_formed_def nth_update_cases)

lemma fifo_inv_popped:
  assumes "fifo_inv sys" "i < length (queues (pool sys))" "tasks (queues (pool sys) ! i) \<noteq> []"
    "tasks q = tl (tasks (queues (pool sys) ! i))"
  shows "fifo_inv (log (Popped wid i (hd (tasks (queues (pool sys) ! i))))
           (set_thread wid w (set_queue i q sys)))"
proof -
  from assms(3) have "tasks (queues (pool sys) ! i)
      = hd (tasks (queues (pool sys) ! i)) # tl (tasks (queues (pool sys) ! i))" by simp
  with assms(1,2,4) show ?thesis
    by (auto simp: fifo_inv_def set_queue_def set_thread_def log_def well_formed_def
        nth_list_update)
qed

lemma fifo_inv_accepted:
  assumes "fifo_inv sys" "i < length (queues (pool sys))"
    "tasks q = tasks (queues (pool sys) ! i) @ [t]"
  shows "fifo_inv (log (Accepted i t) (set_submitter j p (set_queue i q sys)))"
  using assms
  by (auto simp: fifo_inv_def set_queue_def set_submitter_def log_def well_formed_def
      nth_list_update)

lemma fifo_inv_worker_try_pop:
  assumes "fifo_inv sys" "i < length (queues (pool sys))"
  shows "fifo_inv (worker_try_pop lock wid i found missed sys)"
proof (cases "\<not> lock \<or> tasks (queues (pool sys) ! i) = []")
  case True
  then have "worker_try_pop lock wid i found missed sys
      = set_thread wid missed (set_queue i (queues (pool sys) ! i) sys)"
    by (auto simp: worker_try_pop_def try_pop_def)
  with assms show ?thesis by (simp add: fifo_inv_same)
next
  case False
  then have "worker_try_pop lock wid i found missed sys
      = log (Popped wid i (hd (tasks (queues (pool sys) ! i))))
          (set_thread wid (found (hd (tasks (queues (pool sys) ! i))))
             (set_queue i ((queues (pool sys) ! i)\<lparr>tasks := tl (tasks (queues (pool sys) ! i))\<rparr>) sys))"
    by (auto simp: worker_try_pop_def try_pop_def)
  with False assms show ?thesis by (simp add: fifo_inv_popped)
qed

lemma fifo_inv_worker_call: "fifo_inv (worker_call wid t w sys) = fifo_inv sys"
  by (simp add: worker_call_def split: sum.splits)

lemma worker_step_fifo_inv:
  assumes inv: "fifo_inv sys" and st: "worker_step lock wid sys = Some sys'"
  shows "fifo_inv sys'"
proof -
  from st have wid: "wid < length (threads (pool sys))"
    by (simp add: worker_step_def Let_def split: if_splits)
  from inv have wf: "well_formed (pool sys)" by (simp add: fifo_inv_def)
  then have qi: "queue_index (of_nat wid) k (nthreads (pool sys)) < length (queues (pool sys))" for k
    by (simp add: well_formed_def queue_index_def unat_mod unat_gt_0)
  from wf wid have own: "wid < length (queues (pool sys))" by (simp add: well_formed_def)
  note ws = worker_step_def Let_def fifo_inv_worker_try_pop fifo_inv_worker_call
  show ?thesis
  proof (cases "threads (pool sys) ! wid")
    case (Scan k)
    with st inv wid qi show ?thesis
      by (cases "k < unat (10 * nthreads (pool sys))") (auto simp: ws)
  next
    case (Scan_Dec t)
    with st inv wid show ?thesis by (auto simp: ws)
  next
    case Own_Pop
    with st obtain p q' where p: "pop [] (queues (pool sys) ! wid) = Some (p, q')"
      and s': "sys' = (if fst p
                        then log (Popped wid wid (snd p))
                               (set_thread wid (Own_Dec (snd p)) (set_queue wid q' sys))
                        else set_thread wid Finish (set_queue wid q' sys))"
      using wid by (auto simp: worker_step_def Let_def split: option.splits)
    show ?thesis
    proof (cases "fst p")
      case True
      with p have "tasks (queues (pool sys) ! wid) \<noteq> []"
        "q' = (queues (pool sys) ! wid)\<lparr>tasks := tl (tasks (queues (pool sys) ! wid))\<rparr>"
        "snd p = hd (tasks (queues (pool sys) ! wid))"
        by (auto simp: pop_def pop_take_def split: if_splits)
      with True s' inv own show ?thesis by (simp add: fifo_inv_popped)
    next
      case False
      with p have "q' = queues (pool sys) ! wid"
        by (auto simp: pop_def pop_take_def split: if_splits)
      with False s' inv show ?thesis by (simp add: fifo_inv_same)
    qed
  next
    case (Own_Dec t)
    with st inv wid show ?thesis by (auto simp: ws)
  next
    case (Call t)
    with st inv wid show ?thesis by (auto simp: ws)
  next
    case Finish
    with st inv wid show ?thesis by (auto simp: ws)
  next
    case (Drain k)
    with st inv wid qi show ?thesis
      by (cases "k < unat (nthreads (pool sys))") (auto simp: ws)
  next
    case (Drain_Dec k t)
    with st inv wid show ?thesis by (auto simp: ws)
  next
    case (Drain_Call k t)
    with st inv wid show ?thesis by (auto simp: ws)
  next
    case Yield
    with st inv wid show ?thesis by (auto simp: ws)
  next
    case Set_Exited
    have "fifo_inv (sys\<lparr>pool := (pool sys)\<lparr>exited := (exited (pool sys))[wid := True]\<rparr>\<rparr>)"
      using inv by (simp add: fifo_inv_def well_formed_def)
    with st wid Set_Exited show ?thesis by (auto simp: ws)
  next
    case Ended
    with st wid show ?thesis by (simp add: worker_step_def Let_def)
  next
    case (Terminated e)
    with st wid show ?thesis by (simp add: worker_step_def Let_def)
  qed
qed

lemma submitter_step_fifo_inv:
  assumes inv: "fifo_inv sys" and st: "submitter_step lock j sys = Some sys'"
  shows "fifo_inv sys'"
proof -
  from st have j: "j < length (submitters sys)"
    by (simp add: submitter_step_def Let_def split: if_splits)
  from inv have wf: "well_formed (pool sys)" by (simp add: fifo_inv_def)
  then have qi: "queue_index idx k (nthreads (pool sys)) < length (queues (pool sys))" for idx k
    by (simp add: well_formed_def queue_index_def unat_mod unat_gt_0)
  from wf have qm: "unat (idx mod nthreads (pool sys)) < length (queues (pool sys))" for idx
    by (simp add: well_formed_def unat_mod unat_gt_0)
  have h: "fifo_inv (sys\<lparr>heap := h', pool := (pool sys)\<lparr>current_index := c\<rparr>\<rparr>)" for h' c
    using inv by (simp add: fifo_inv_def well_formed_def)
  show ?thesis
  proof (cases "submitters sys ! j")
    case (Submit f x)
    with st j h show ?thesis by (auto simp: submitter_step_def Let_def make_task_def)
  next
    case (Push_Loop idx k t fut)
    with st j inv show ?thesis
      by (cases "k < unat (10 * nthreads (pool sys))") (auto simp: submitter_step_def Let_def)
  next
    case (Push_Try idx k t fut)
    with st j inv qi show ?thesis
      by (cases lock)
        (auto simp: submitter_step_def Let_def try_push_def move_task_def fifo_inv_accepted
          fifo_inv_same)
  next
    case (Push_Dec idx k t fut)
    with st j inv show ?thesis by (auto simp: submitter_step_def Let_def)
  next
    case (Push_Last idx t fut)
    with st j inv qm show ?thesis
      by (cases "nthreads (pool sys) = 0")
        (auto simp: submitter_step_def Let_def fifo_inv_accepted push_def)
  next
    case (Returned fut)
    with st j show ?thesis by (simp add: submitter_step_def Let_def)
  qed
qed

lemma step_fifo_inv:
  assumes "fifo_inv sys" "step a sys = Some sys'"
  shows "fifo_inv sys'"
proof (cases a)
  case (Worker wid lock)
  with assms show ?thesis by (simp add: step_def worker_step_fifo_inv)
next
  case (Submitter j lock)
  with assms show ?thesis by (simp add: step_def submitter_step_fifo_inv)
next
  case (Set_Done i)
  with assms show ?thesis
    by (auto simp: step_def set_done_def split: if_splits intro!: fifo_inv_same)
qed

lemma exec_fifo_inv: "fifo_inv sys \<Longrightarrow> exec as sys = Some sys' \<Longrightarrow> fifo_inv sys'"
  by (induction as arbitrary: sys) (auto split: option.splits dest: step_fifo_inv)

lemma new_system_fifo_inv: "n \<noteq> 0 \<Longrightarrow> fifo_inv (new_system n subs)"
  by (simp add: fifo_inv_def new_system_def new_task_system_def well_formed_def
      accepted_by_def popped_from_def new_queue_def)


lemma executed_scan_snoc:
  "executed_scan i src (es @ [Accepted q t]) = executed_scan i src es"
  "executed_scan i src (es @ [Popped w q t]) = executed_scan i src es"
  "executed_scan i src (es @ [Invoked w t]) =
     executed_scan i src es @ (if last_source src es w = i then [t] else [])"
  by (induction i src es rule: executed_scan.induct) simp_all

lemma last_source_snoc:
  "last_source src (es @ [Accepted q t]) = last_source src es"
  "last_source src (es @ [Invoked w t]) = last_source src es"
  "last_source src (es @ [Popped w q t]) = (last_source src es)(w := q)"
  by (induction src es rule: last_source.induct) simp_all

lemma const_upd: "(\<lambda>w. c)(a := c) = (\<lambda>w. c)"
  by (rule ext) simp

lemmas scan_snoc = executed_scan_snoc last_source_snoc const_upd

lemma single_inv_frame [simp]:
  "single_inv (set_queued c sys) = single_inv sys"
  "single_inv (set_submitter j p sys) = single_inv sys"
  "single_inv (sys\<lparr>heap := h\<rparr>) = single_inv sys"
  by (simp_all add: single_inv_def set_queued_def set_submitter_def well_formed_def)

lemma single_inv_thread:
  assumes "single_inv sys" "held_by_worker w = held_by_worker (threads (pool sys) ! wid)"
    "wid < length (threads (pool sys))"
  shows "single_inv (set_thread wid w sys)"
proof -
  from assms(1,3) have "wid = 0" by (simp add: single_inv_def well_formed_def)
  with assms show ?thesis
    by (simp add: single_inv_def set_thread_def well_formed_def)
qed

lemma single_inv_queue:
  assumes "single_inv sys" "tasks q = tasks (queues (pool sys) ! i)"
  shows "single_inv (set_queue i q sys)"
  using assms
  by (simp add: single_inv_def set_queue_def well_formed_def nth_update_cases)

lemma single_inv_popped:
  assumes "single_inv sys" "i < length (queues (pool sys))" "wid < length (threads (pool sys))"
    "tasks (queues (pool sys) ! i) \<noteq> []" "tasks q = tl (tasks (queues (pool sys) ! i))"
    "held_by_worker (threads (pool sys) ! wid) = []"
    "held_by_worker w = [hd (tasks (queues (pool sys) ! i))]"
  shows "single_inv (log (Popped wid i (hd (tasks (queues (pool sys) ! i))))
           (set_thread wid w (set_queue i q sys)))"
proof -
  from assms(1,2,3) have z: "i = 0" "wid = 0" by (simp_all add: single_inv_def well_formed_def)
  from assms(4) have "tasks (queues (pool sys) ! 0)
      = hd (tasks (queues (pool sys) ! 0)) # tl (tasks (queues (pool sys) ! 0))"
    unfolding z by simp
  with assms z show ?thesis
    by (simp add: single_inv_def set_queue_def set_thread_def log_def well_formed_def
        executed_from_def scan_snoc)
qed

lemma single_inv_accepted:
  assumes "single_inv sys" "i < length (queues (pool sys))"
    "tasks q = tasks (queues (pool sys) ! i) @ [t]"
  shows "single_inv (log (Accepted i t) (set_submitter j p (set_queue i q sys)))"
proof -
  from assms(1,2) have z: "i = 0" by (simp_all add: single_inv_def well_formed_def)
  with assms show ?thesis
    by (simp add: single_inv_def set_queue_def set_submitter_def log_def well_formed_def
        executed_from_def scan_snoc)
qed

lemma single_inv_worker_try_pop:
  assumes "single_inv sys" "i < length (queues (pool sys))" "wid < length (threads (pool sys))"
    "held_by_worker (threads (pool sys) ! wid) = []" "held_by_worker missed = []"
    "\<And>t. held_by_worker (found t) = [t]"
  shows "single_inv (worker_try_pop lock wid i found missed sys)"
proof (cases "\<not> lock \<or> tasks (queues (pool sys) ! i) = []")
  case True
  then have "worker_try_pop lock wid i found missed sys
      = set_thread wid missed (set_queue i (queues (pool sys) ! i) sys)"
    by (auto simp: worker_try_pop_def try_pop_def)
  moreover have "single_inv (set_queue i (queues (pool sys) ! i) sys)"
    using assms(1) by (rule single_inv_queue) simp
  ultimately show ?thesis
    using assms by (simp add: single_inv_thread set_queue_def)
next
  case False
  then have "worker_try_pop lock wid i found missed sys
      = log (Popped wid i (hd (tasks (queues (pool sys) ! i))))
          (set_thread wid (found (hd (tasks (queues (pool sys) ! i))))
             (set_queue i ((queues (pool sys) ! i)\<lparr>tasks := tl (tasks (queues (pool sys) ! i))\<rparr>) sys))"
    by (auto simp: worker_try_pop_def try_pop_def)
  with False assms show ?thesis by (simp add: single_inv_popped)
qed

lemma single_inv_worker_call:
  assumes "single_inv sys" "wid < length (threads (pool sys))"
    "held_by_worker (threads (pool sys) ! wid) = [t]" "held_by_worker w = []"
  shows "single_inv (worker_call wid t w sys)"
proof -
  from assms(1,2) have z: "wid = 0" by (simp add: single_inv_def well_formed_def)
  have "single_inv (log (Invoked 0 t) (set_thread 0 w' (sys\<lparr>heap := h'\<rparr>)))"
    if "held_by_worker w' = []" for w' h'
    using assms(1,3) that unfolding z
    by (simp add: single_inv_def set_thread_def log_def well_formed_def executed_from_def
        scan_snoc)
  from this[of w] this[of "Terminated e" "heap sys" for e] assms(4) show ?thesis
    unfolding z by (simp add: worker_call_def split: sum.splits)
qed


lemma single_inv_dec:
  assumes "single_inv sys" "held_by_worker w = held_by_worker (threads (pool sys) ! wid)"
    "wid < length (threads (pool sys))"
  shows "single_inv (set_thread wid w (set_queued c sys))"
proof (rule single_inv_thread)
  show "single_inv (set_queued c sys)" using assms(1) by simp
  show "held_by_worker w = held_by_worker (threads (pool (set_queued c sys)) ! wid)"
    using assms(2) by (simp add: set_queued_def)
  show "wid < length (threads (pool (set_queued c sys)))"
    using assms(3) by (simp add: set_queued_def)
qed

lemma worker_step_single_inv:
  assumes inv: "single_inv sys" and st: "worker_step lock wid sys = Some sys'"
  shows "single_inv sys'"
proof -
  from st have wid: "wid < length (threads (pool sys))"
    by (simp add: worker_step_def Let_def split: if_splits)
  from inv have wf: "well_formed (pool sys)" by (simp add: single_inv_def)
  then have qi: "queue_index (of_nat wid) k (nthreads (pool sys)) < length (queues (pool sys))" for k
    by (simp add: well_formed_def queue_index_def unat_mod unat_gt_0)
  from wf wid have own: "wid < length (queues (pool sys))" by (simp add: well_formed_def)
  note ws = worker_step_def Let_def single_inv_worker_try_pop single_inv_worker_call
    single_inv_thread single_inv_dec
  show ?thesis
  proof (cases "threads (pool sys) ! wid")
    case (Scan k)
    with st inv wid qi show ?thesis
      by (cases "k < unat (10 * nthreads (pool sys))") (auto simp: ws)
  next
    case (Scan_Dec t)
    with st inv wid show ?thesis by (auto simp: ws)
  next
    case Own_Pop
    with st obtain p q' where p: "pop [] (queues (pool sys) ! wid) = Some (p, q')"
      and s': "sys' = (if fst p
                        then log (Popped wid wid (snd p))
                               (set_thread wid (Own_Dec (snd p)) (set_queue wid q' sys))
                        else set_thread wid Finish (set_queue wid q' sys))"
      using wid by (auto simp: worker_step_def Let_def split: option.splits)
    show ?thesis
    proof (cases "fst p")
      case True
      with p have "tasks (queues (pool sys) ! wid) \<noteq> []"
        "q' = (queues (pool sys) ! wid)\<lparr>tasks := tl (tasks (queues (pool sys) ! wid))\<rparr>"
        "snd p = hd (tasks (queues (pool sys) ! wid))"
        by (auto simp: pop_def pop_take_def split: if_splits)
      with True s' inv own wid Own_Pop show ?thesis by (simp add: single_inv_popped)
    next
      case False
      with p have "q' = queues (pool sys) ! wid"
        by (auto simp: pop_def pop_take_def split: if_splits)
      then have "single_inv (set_queue wid q' sys)"
        using inv by (intro single_inv_queue) simp_all
      with False s' wid Own_Pop show ?thesis
        by (simp add: single_inv_thread set_queue_def)
    qed
  next
    case (Own_Dec t)
    with st inv wid show ?thesis by (auto simp: ws)
  next
    case (Call t)
    with st inv wid show ?thesis by (auto simp: ws)
  next
    case Finish
    with st inv wid show ?thesis by (auto simp: ws)
  next
    case (Drain k)
    with st inv wid qi show ?thesis
      by (cases "k < unat (nthreads (pool sys))") (auto simp: ws)
  next
    case (Drain_Dec k t)
    with st inv wid show ?thesis by (auto simp: ws)
  next
    case (Drain_Call k t)
    with st inv wid show ?thesis by (auto simp: ws)
  next
    case Yield
    with st inv wid show ?thesis by (auto simp: ws)
  next
    case Set_Exited
    have "single_inv (sys\<lparr>pool := (pool sys)\<lparr>exited := (exited (pool sys))[wid := True]\<rparr>\<rparr>)"
      using inv by (simp add: single_inv_def well_formed_def)
    with st wid Set_Exited show ?thesis by (auto simp: ws)
  next
    case Ended
    with st wid show ?thesis by (simp add: worker_step_def Let_def)
  next
    case (Terminated e)
    with st wid show ?thesis by (simp add: worker_step_def Let_def)
  qed
qed

lemma submitter_step_single_inv:
  assumes inv: "single_inv sys" and st: "submitter_step lock j sys = Some sys'"
  shows "single_inv sys'"
proof -
  from st have j: "j < length (submitters sys)"
    by (simp add: submitter_step_def Let_def split: if_splits)
  from inv have wf: "well_formed (pool sys)" by (simp add: single_inv_def)
  then have qi: "queue_index idx k (nthreads (pool sys)) < length (queues (pool sys))" for idx k
    by (simp add: well_formed_def queue_index_def unat_mod unat_gt_0)
  from wf have qm: "unat (idx mod nthreads (pool sys)) < length (queues (pool sys))" for idx
    by (simp add: well_formed_def unat_mod unat_gt_0)
  have h: "single_inv (sys\<lparr>heap := h', pool := (pool sys)\<lparr>current_index := c\<rparr>\<rparr>)" for h' c
    using inv by (simp add: single_inv_def well_formed_def)
  show ?thesis
  proof (cases "submitters sys ! j")
    case (Submit f x)
    with st j h show ?thesis by (auto simp: submitter_step_def Let_def make_task_def)
  next
    case (Push_Loop idx k t fut)
    with st j inv show ?thesis
      by (cases "k < unat (10 * nthreads (pool sys))") (auto simp: submitter_step_def Let_def)
  next
    case (Push_Try idx k t fut)
    with st j inv qi show ?thesis
      by (cases lock)
        (auto simp: submitter_step_def Let_def try_push_def move_task_def single_inv_accepted
          single_inv_queue)
  next
    case (Push_Dec idx k t fut)
    with st j inv show ?thesis by (auto simp: submitter_step_def Let_def)
  next
    case (Push_Last idx t fut)
    with st j inv qm show ?thesis
      by (cases "nthreads (pool sys) = 0")
        (auto simp: submitter_step_def Let_def single_inv_accepted push_def)
  next
    case (Returned fut)
    with st j show ?thesis by (simp add: submitter_step_def Let_def)
  qed
qed

lemma step_single_inv:
  assumes "single_inv sys" "step a sys = Some sys'"
  shows "single_inv sys'"
proof (cases a)
  case (Worker wid lock)
  with assms show ?thesis by (simp add: step_def worker_step_single_inv)
next
  case (Submitter j lock)
  with assms show ?thesis by (simp add: step_def submitter_step_single_inv)
next
  case (Set_Done i)
  with assms show ?thesis
    by (auto simp: step_def set_done_def split: if_splits intro!: single_inv_queue)
qed

lemma exec_single_inv: "single_inv sys \<Longrightarrow> exec as sys = Some sys' \<Longrightarrow> single_inv sys'"
  by (induction as arbitrary: sys) (auto split: option.splits dest: step_single_inv)

lemma new_system_single_inv: "single_inv (new_system 1 subs)"
  by (simp add: single_inv_def new_system_def new_task_system_def well_formed_def
      accepted_by_def accepted_def invoked_def executed_from_def new_queue_def)

text \<open>
  Claim C8, as the code has it. In every state a pool with at least one worker reaches from
  its construction, the jobs popped from a queue so far, followed by the jobs still in it,
  are the jobs the queue accepted, in the order it accepted them: each queue is popped in
  the order it was pushed. In a pool of one worker the jobs are moreover invoked in that
  order: the jobs invoked so far are the first of the jobs accepted, in the same order.
\<close>

theorem fifo_per_queue:
  assumes "n \<noteq> 0" "exec as (new_system n subs) = Some sys"
  shows "(\<forall>i < unat n.
            popped_from i (history sys) @ tasks (queues (pool sys) ! i)
              = accepted_by i (history sys))
    \<and> (n = 1 \<longrightarrow> executed_fifo 0 sys
          \<and> (\<exists>rest. accepted (history sys) = invoked (history sys) @ rest))"
proof (intro conjI impI)
  from exec_fifo_inv[OF new_system_fifo_inv[OF assms(1)] assms(2)]
  have f: "fifo_inv sys" .
  from exec_exit_inv[OF new_system_exit_inv assms(2)]
  have "length (threads (pool sys)) = unat n" "nthreads (pool sys) = n"
    by (simp_all add: exit_inv_def)
  with f show "\<forall>i < unat n.
            popped_from i (history sys) @ tasks (queues (pool sys) ! i)
              = accepted_by i (history sys)"
    by (simp add: fifo_inv_def well_formed_def)
next
  assume "n = 1"
  with exec_single_inv[OF new_system_single_inv] assms(2) have s: "single_inv sys" by blast
  then have a: "accepted (history sys) = invoked (history sys)
      @ (held_by_worker (threads (pool sys) ! 0) @ tasks (queues (pool sys) ! 0))"
    and b: "accepted_by 0 (history sys) = accepted (history sys)"
    and c: "executed_from 0 (history sys) = invoked (history sys)"
    by (simp_all add: single_inv_def)
  from a show "\<exists>rest. accepted (history sys) = invoked (history sys) @ rest" by blast
  show "executed_fifo 0 sys"
    unfolding executed_fifo_def b c by (subst a) simp
qed


lemma new_system_2:
  "new_system 2 subs =
     \<lparr>pool = \<lparr>queues = [new_queue, new_queue], threads = [Scan 0, Scan 0],
              exited = [False, False], nthreads = 2, current_index = 0, queued = 0\<rparr>,
      heap = [], submitters = subs, history = []\<rparr>"
proof -
  have "unat (2 :: 64 word) = 2" by simp
  then show ?thesis by (simp add: new_system_def new_task_system_def numeral_2_eq_2)
qed

text \<open>
  Claim C8, as stated, fails for the execution order when two workers take jobs from one
  queue. In a pool of two workers queue 0 accepts the job of the first submission and then
  the job of the second; worker 0 pops the first job, worker 1 pops the second and invokes
  it while worker 0 has not invoked the first yet.
\<close>

theorem executed_fifo_counterexample:
  "map_option (executed_fifo 0)
     (exec [Submitter 0 True, Submitter 0 True, Submitter 0 True,
            Submitter 1 True, Submitter 1 True, Submitter 1 False, Submitter 1 True,
            Submitter 1 True, Submitter 1 True,
            Worker 0 True,
            Worker 1 True, Worker 1 True, Worker 1 True, Worker 1 True]
        (new_system 2 [Submit Value (1 :: nat), Submit Value (2 :: nat)])) = Some False"
  by (simp add: new_system_2 step_defs executed_fifo_def executed_from_def accepted_by_def Let_def)

text \<open>One submission to a pool of one worker, popped and invoked by the worker.\<close>

theorem fifo_per_queue_witness:
  "(1 :: 64 word) \<noteq> 0
   \<and> exec [Submitter 0 True, Submitter 0 True, Submitter 0 True,
           Worker 0 True, Worker 0 True, Worker 0 True]
        (new_system 1 [Submit (\<lambda>n. Value (n + 1)) (41 :: nat)])
      = Some \<lparr>pool = \<lparr>queues = [\<lparr>tasks = [], cv = [Notify_One], done_flag = False\<rparr>],
                threads = [Scan 0], exited = [False],
                nthreads = 1, current_index = 1, queued = 0\<rparr>,
              heap = [Some (Value 42)], submitters = [Returned 0],
              history = [Accepted 0 (Some example_model), Popped 0 0 (Some example_model),
                         Invoked 0 (Some example_model)]\<rparr>
   \<and> executed_fifo 0
        \<lparr>pool = \<lparr>queues = [\<lparr>tasks = [], cv = [Notify_One], done_flag = False\<rparr>],
                threads = [Scan 0], exited = [False],
                nthreads = 1, current_index = 1, queued = 0\<rparr>,
         heap = [Some (Value 42)], submitters = [Returned 0],
         history = [Accepted 0 (Some example_model), Popped 0 0 (Some example_model),
                    Invoked 0 (Some example_model)]\<rparr>"
proof -
  let ?sys = "\<lparr>pool = \<lparr>queues = [\<lparr>tasks = [], cv = [Notify_One], done_flag = False\<rparr>],
                threads = [Scan 0], exited = [False],
                nthreads = 1, current_index = 1, queued = 0\<rparr>,
         heap = [Some (Value 42)], submitters = [Returned 0],
         history = [Accepted 0 (Some example_model), Popped 0 0 (Some example_model),
                    Invoked 0 (Some example_model)]\<rparr>"
  have n: "(1 :: 64 word) \<noteq> 0" by simp
  have e: "exec [Submitter 0 True, Submitter 0 True, Submitter 0 True,
           Worker 0 True, Worker 0 True, Worker 0 True]
        (new_system 1 [Submit (\<lambda>n. Value (n + 1)) (41 :: nat)]) = Some ?sys"
    by (simp add: new_system_1 step_defs example_model_def Let_def)
  from fifo_per_queue[OF n e] have "executed_fifo 0 ?sys" by blast
  with n e show ?thesis by blast
qed

section \<open>Result fidelity\<close>






lemma live_frame [simp]:
  "live_tasks (log e sys) = live_tasks sys"
  "live_tasks (set_queued c sys) = live_tasks sys"
  "live_tasks (sys\<lparr>heap := h\<rparr>) = live_tasks sys"
  by (simp_all add: live_tasks_def log_def set_queued_def)






lemma promise_inv_eq [simp]:
  "promise_inv subs (log e sys) = promise_inv subs sys"
  "promise_inv subs (set_queued c sys) = promise_inv subs sys"
  by (simp_all add: promise_inv_def log_def set_queued_def live_tasks_def well_formed_def)


























end
